theory Spec2Isabelle
  imports Complex_Main "HOL-Library.Multiset"
begin

section \<open>Data model\<close>

text \<open>
  The News_Intelligence actors share one pattern: read a list of RSS feeds, collect
  articles from them in round-robin order up to a quota, drop the articles whose link was
  already processed in an earlier run, backfill from the fetched pool when too few are new,
  and enrich the articles one by one. The model follows
  \<^verbatim>\<open>health-fitness-intelligence/src/{models,tools,main}.py\<close>, the collection loop of
  \<^verbatim>\<open>cybersecurity-ai-news-intelligence/src/tools.py\<close> and the search call of
  \<^verbatim>\<open>gdelt-news/src/tools.py\<close>.

  Python exceptions are values of \<open>error\<close>; a function that can raise returns
  \<open>error + 'a\<close> with \<open>Inl\<close> for the exception.
\<close>

datatype error =
    ValidationError          \<comment> \<open>pydantic rejects a field of a model\<close>
  | PushDataError            \<comment> \<open>\<^verbatim>\<open>Actor.push_data\<close> raises\<close>
  | HTTPStatusError nat      \<comment> \<open>\<^verbatim>\<open>response.raise_for_status()\<close> on a status outside 2xx\<close>
  | RequestError             \<comment> \<open>any other exception of an outbound call\<close>

text \<open>
  An entry of a parsed feed is a dictionary; \<open>fetch_rss_feeds\<close> reads the four keys
  below with \<^verbatim>\<open>entry.get\<close>, so a missing key is \<open>None\<close>.
\<close>

record raw_entry =
  entry_title :: "string option"
  entry_link :: "string option"
  entry_published :: "string option"
  entry_summary :: "string option"

text \<open>\<^verbatim>\<open>class RSSFeed(BaseModel)\<close> of models.py; \<open>link\<close> holds the validated URL.\<close>

record RSSFeed =
  title :: string
  link :: string
  source :: "string option"
  published :: "string option"
  summary :: "string option"

text \<open>
  The outcome of \<^verbatim>\<open>feedparser.parse(feed_url)\<close>: an exception, or a parsed feed with its
  entries and the optional title of the feed.
\<close>

datatype fetch_result =
    ParseFailed
  | Parsed "raw_entry list" "string option"

text \<open>
  An element of \<^verbatim>\<open>parsed_feeds\<close>: the iterator over a feed's entries, as the list of the
  entries it has not yet yielded, and the source title.
\<close>

type_synonym feed = "raw_entry list \<times> string"

section \<open>fetch_rss_feeds (health-fitness-intelligence)\<close>

definition truthy :: "string option \<Rightarrow> bool" where
  "truthy s = (case s of None \<Rightarrow> False | Some v \<Rightarrow> v \<noteq> [])"

definition feed_map :: "string option \<Rightarrow> (string \<times> string option) list" where
  "feed_map custom_url =
    [(''mens-health'', Some ''https://www.menshealth.com/rss/all.xml/''),
     (''myfitnesspal'', Some ''https://blog.myfitnesspal.com/feed''),
     (''born-fitness'', Some ''https://www.bornfitness.com/feed/''),
     (''trainerize'', Some ''http://feeds.feedburner.com/TrainerizeBlog''),
     (''wod-guru'', Some ''https://wod.guru/feed/''),
     (''breaking-muscle'', Some ''https://breakingmuscle.com/feed/''),
     (''fitnessista'', Some ''https://fitnessista.com/feed/''),
     (''anytime-fitness'', Some ''https://www.anytimefitness.co.in/feed/''),
     (''nasm'', Some ''https://blog.nasm.org/rss.xml''),
     (''girls-gone-strong'', Some ''https://www.girlsgonestrong.com/feed''),
     (''popsugar-fitness'', Some ''https://www.popsugar.com/feed''),
     (''the-fit-bits'', Some ''http://www.thefitbits.com/feed''),
     (''precision-nutrition'', Some ''https://www.precisionnutrition.com/feed''),
     (''bites-of-wellness'', Some ''https://bitesofwellness.com/feed/''),
     (''eating-bird-food'', Some ''https://www.eatingbirdfood.com/feed/''),
     (''nutrition-stripped'', Some ''https://nutritionstripped.com/articles/feed/''),
     (''oh-she-glows'', Some ''https://ohsheglows.com/feed/''),
     (''nutritionfacts'', Some ''https://nutritionfacts.org/feed/''),
     (''delish-knowledge'', Some ''https://www.delishknowledge.com/feed/''),
     (''real-food-dietitians'', Some ''https://therealfooddietitians.com/feed''),
     (''fit-foodie-finds'', Some ''https://fitfoodiefinds.com/feed/''),
     (''toby-amidor-nutrition'', Some ''https://tobyamidornutrition.com/feed''),
     (''pbfingers'', Some ''https://www.pbfingers.com/feed''),
     (''the-healthy-maven'', Some ''https://www.thehealthymaven.com/feed''),
     (''nutrition-twins'', Some ''https://www.nutritiontwins.com/feed''),
     (''the-full-helping'', Some ''https://www.thefullhelping.com/feed''),
     (''the-fit-foodie'', Some ''https://the-fit-foodie.com/feed''),
     (''fit-bottomed-girls'',
        Some ''https://fitbottomedgirls.com/category/fitness/fitness-blogs/feed/''),
     (''art-of-healthy-living'', Some ''https://artofhealthyliving.com/feed/''),
     (''shape'',
        Some ''https://feeds-api.dotdashmeredith.com/v1/rss/google/5814e1d4-bdb5-4afb-a458-61bfc1585860''),
     (''health'',
        Some ''https://feeds-api.dotdashmeredith.com/v1/rss/google/3a6c43d9-d394-4797-9855-97f429e5b1ff''),
     (''healthshots'', Some ''https://www.healthshots.com/rss-feeds/''),
     (''mommypotamus'', Some ''https://mommypotamus.com/feed''),
     (''natural-living-ideas'', Some ''https://www.naturallivingideas.com/feed''),
     (''a-healthy-slice-of-life'', Some ''https://www.ahealthysliceoflife.com/feed''),
     (''unlikely-martha'', Some ''https://unlikelymartha.com/feed''),
     (''athletechnews'', Some ''https://athletechnews.com/feed''),
     (''health-club-management'',
        Some ''https://www.healthclubmanagement.co.uk/feed/news-feed.xml''),
     (''club-solutions'', Some ''https://clubsolutionsmagazine.com/feed/''),
     (''total-health-and-fitness'', Some ''https://www.totalhealthandfitness.com/feed/''),
     (''core-handf'', Some ''https://corehandf.com/blog/rss.xml''),
     (''custom'', custom_url)]"

text \<open>
  Lines 80-84: the URLs to read. A dictionary keeps insertion order, so \<open>all\<close> lists the
  feeds in the order of \<open>feed_map\<close>.
\<close>

definition select_urls :: "string \<Rightarrow> string option \<Rightarrow> string list" where
  "select_urls src custom_url =
    (if src = ''custom'' \<and> truthy custom_url then
       (case custom_url of None \<Rightarrow> [] | Some c \<Rightarrow> [c])
     else if src = ''all'' then
       List.map_filter (\<lambda>(key, url). if key \<noteq> ''custom'' then url else None)
         (feed_map custom_url)
     else
       (case map_of (feed_map custom_url) src of
          Some selected \<Rightarrow>
            (if truthy selected then (case selected of None \<Rightarrow> [] | Some s \<Rightarrow> [s]) else [])
        | None \<Rightarrow> []))"

text \<open>
  Lines 86-95: each URL is parsed inside its own \<^verbatim>\<open>try\<close>; a feed that raises or has no
  entries is logged and left out. \<open>parse\<close> stands for \<^verbatim>\<open>feedparser.parse\<close>.
\<close>

fun parse_feeds :: "(string \<Rightarrow> fetch_result) \<Rightarrow> string list \<Rightarrow> feed list" where
  "parse_feeds parse [] = []"
| "parse_feeds parse (feed_url # urls) =
    (case parse feed_url of
       ParseFailed \<Rightarrow> parse_feeds parse urls
     | Parsed entries feed_title \<Rightarrow>
         (if entries \<noteq> [] then
            (entries,
             (case feed_title of
                None \<Rightarrow> ''Unknown ('' @ feed_url @ '')''
              | Some t \<Rightarrow> t)) # parse_feeds parse urls
          else parse_feeds parse urls))"

text \<open>
  The constructor call \<^verbatim>\<open>RSSFeed(title=entry.get("title", ""), link=entry.get("link", ""),
  source=source_title, published=entry.get("published"), summary=entry.get("summary"))\<close>.
  The field \<open>link\<close> is a pydantic \<^verbatim>\<open>HttpUrl\<close>: \<open>http_url\<close> stands for its validator, which
  returns the URL in its normal form or rejects the string.
\<close>

definition make_RSSFeed :: "(string \<Rightarrow> string option) \<Rightarrow> string \<Rightarrow> raw_entry \<Rightarrow> error + RSSFeed" where
  "make_RSSFeed http_url source_title entry =
    (case http_url (case entry_link entry of None \<Rightarrow> [] | Some l \<Rightarrow> l) of
       None \<Rightarrow> Inl ValidationError
     | Some u \<Rightarrow>
         Inr \<lparr>title = (case entry_title entry of None \<Rightarrow> [] | Some t \<Rightarrow> t),
              link = u,
              source = Some source_title,
              published = entry_published entry,
              summary = entry_summary entry\<rparr>)"

text \<open>
  Lines 101-110, the \<^verbatim>\<open>for i, (entry_iterator, source_title) in enumerate(available_feeds)\<close>
  loop of one cycle, from index \<open>i\<close> on. It returns the articles, the feeds with their
  iterators advanced, and \<^verbatim>\<open>feeds_to_remove\<close> (the indices appended in the order visited).
  \<^verbatim>\<open>next\<close> consumes the entry before the constructor can raise.
\<close>

fun visit_feeds ::
  "(string \<Rightarrow> string option) \<Rightarrow> int \<Rightarrow> nat \<Rightarrow> feed list \<Rightarrow> RSSFeed list
     \<Rightarrow> RSSFeed list \<times> feed list \<times> nat list" where
  "visit_feeds http_url max_articles i [] articles = (articles, [], [])"
| "visit_feeds http_url max_articles i ((entry_iterator, source_title) # rest) articles =
    (if int (length articles) \<ge> max_articles then
       (articles, (entry_iterator, source_title) # rest, [])
     else
       (case entry_iterator of
          [] \<Rightarrow>
            (case visit_feeds http_url max_articles (Suc i) rest articles of
               (articles', rest', feeds_to_remove) \<Rightarrow>
                 (articles', ([], source_title) # rest', i # feeds_to_remove))
        | entry # entries \<Rightarrow>
            (case make_RSSFeed http_url source_title entry of
               Inr article \<Rightarrow>
                 (case visit_feeds http_url max_articles (Suc i) rest (articles @ [article]) of
                    (articles', rest', feeds_to_remove) \<Rightarrow>
                      (articles', (entries, source_title) # rest', feeds_to_remove))
             | Inl e \<Rightarrow>
                 (case visit_feeds http_url max_articles (Suc i) rest articles of
                    (articles', rest', feeds_to_remove) \<Rightarrow>
                      (articles', (entries, source_title) # rest', i # feeds_to_remove)))))"

text \<open>
  Line 111: \<^verbatim>\<open>for index in sorted(feeds_to_remove, reverse=True): available_feeds.pop(index)\<close>.
  The indices come from \<^verbatim>\<open>enumerate\<close>, so they are in range (lemma \<open>visit_feeds_indices\<close>).
\<close>

definition pop :: "'a list \<Rightarrow> nat \<Rightarrow> 'a list" where
  "pop xs index = take index xs @ drop (Suc index) xs"

definition remove_feeds :: "feed list \<Rightarrow> nat list \<Rightarrow> feed list" where
  "remove_feeds available_feeds feeds_to_remove =
     foldl pop available_feeds (rev (sort feeds_to_remove))"

text \<open>One cycle of the \<^verbatim>\<open>while\<close> loop: the \<^verbatim>\<open>for\<close> loop, then the removals.\<close>

definition cycle ::
  "(string \<Rightarrow> string option) \<Rightarrow> int \<Rightarrow> feed list \<times> RSSFeed list \<Rightarrow> feed list \<times> RSSFeed list" where
  "cycle http_url max_articles s =
    (case visit_feeds http_url max_articles 0 (fst s) (snd s) of
       (articles', feeds', feeds_to_remove) \<Rightarrow> (remove_feeds feeds' feeds_to_remove, articles'))"

definition loop_cond :: "int \<Rightarrow> feed list \<times> RSSFeed list \<Rightarrow> bool" where
  "loop_cond max_articles s = (int (length (snd s)) < max_articles \<and> fst s \<noteq> [])"

subsection \<open>The cycle as one recursion\<close>

text \<open>
  \<open>sweep\<close> is one cycle written without indices: a feed that is exhausted or whose entry
  is rejected is dropped on the spot. Lemma \<open>cycle_sweep\<close> shows that the index
  bookkeeping of the source computes the same; the later proofs use \<open>sweep\<close>.
\<close>

fun sweep :: "(string \<Rightarrow> string option) \<Rightarrow> int \<Rightarrow> feed list \<Rightarrow> RSSFeed list \<Rightarrow> RSSFeed list \<times> feed list" where
  "sweep u mx [] arts = (arts, [])"
| "sweep u mx ((es, t) # rest) arts =
   (if int (length arts) \<ge> mx then (arts, (es, t) # rest)
    else (case es of
       [] \<Rightarrow> sweep u mx rest arts
     | e # es' \<Rightarrow>
        (case make_RSSFeed u t e of
           Inr a \<Rightarrow> (case sweep u mx rest (arts @ [a]) of (arts', rest') \<Rightarrow> (arts', (es', t) # rest'))
         | Inl _ \<Rightarrow> sweep u mx rest arts)))"

lemma pop_at: "length pre = i \<Longrightarrow> pop (pre @ x # xs) i = pre @ xs"
  by (simp add: pop_def)

lemma visit_feeds_sweep:
  "visit_feeds u mx i fs arts = (arts', fs', rem) \<Longrightarrow>
     arts' = fst (sweep u mx fs arts) \<and> length fs' = length fs \<and> sorted rem \<and>
     (\<forall>x\<in>set rem. i \<le> x \<and> x < i + length fs) \<and>
     (\<forall>pre. length pre = i \<longrightarrow> foldl pop (pre @ fs') (rev rem) = pre @ snd (sweep u mx fs arts))"
proof (induction fs arbitrary: i arts arts' fs' rem)
  case Nil
  then show ?case by simp
next
  case (Cons f fs)
  obtain es t where f: "f = (es, t)" by (cases f)
  show ?case
  proof (cases "int (length arts) \<ge> mx")
    case True
    with Cons.prems f show ?thesis by auto
  next
    case False
    show ?thesis
    proof (cases es)
      case Nil
      obtain a1 r1 m1 where v: "visit_feeds u mx (Suc i) fs arts = (a1, r1, m1)"
        by (cases "visit_feeds u mx (Suc i) fs arts")
      from Cons.IH[OF v] have ih: "a1 = fst (sweep u mx fs arts)" "length r1 = length fs" "sorted m1"
        "\<forall>x\<in>set m1. Suc i \<le> x \<and> x < Suc i + length fs"
        "\<And>pre. length pre = Suc i \<Longrightarrow> foldl pop (pre @ r1) (rev m1) = pre @ snd (sweep u mx fs arts)"
        by auto
      from Cons.prems f False Nil v have eqs: "arts' = a1" "fs' = ([], t) # r1" "rem = i # m1" by auto
      have "\<And>pre. length pre = i \<Longrightarrow> foldl pop (pre @ fs') (rev rem) = pre @ snd (sweep u mx (f # fs) arts)"
      proof -
        fix pre :: "feed list" assume l: "length pre = i"
        have "foldl pop ((pre @ [([], t)]) @ r1) (rev m1) = (pre @ [([], t)]) @ snd (sweep u mx fs arts)"
          using ih(5)[of "pre @ [([], t)]"] l by simp
        then show "foldl pop (pre @ fs') (rev rem) = pre @ snd (sweep u mx (f # fs) arts)"
          using eqs f False Nil l by (simp add: pop_at)
      qed
      moreover have "sorted rem" using ih(3,4) eqs by (auto)
      ultimately show ?thesis using ih eqs f False Nil by auto
    next
      case (Cons e es')
      show ?thesis
      proof (cases "make_RSSFeed u t e")
        case (Inl err)
        obtain a1 r1 m1 where v: "visit_feeds u mx (Suc i) fs arts = (a1, r1, m1)"
          by (cases "visit_feeds u mx (Suc i) fs arts")
        from Cons.IH[OF v] have ih: "a1 = fst (sweep u mx fs arts)" "length r1 = length fs" "sorted m1"
          "\<forall>x\<in>set m1. Suc i \<le> x \<and> x < Suc i + length fs"
          "\<And>pre. length pre = Suc i \<Longrightarrow> foldl pop (pre @ r1) (rev m1) = pre @ snd (sweep u mx fs arts)"
          by auto
        from Cons.prems f False Cons Inl v have eqs: "arts' = a1" "fs' = (es', t) # r1" "rem = i # m1" by auto
        have "\<And>pre. length pre = i \<Longrightarrow> foldl pop (pre @ fs') (rev rem) = pre @ snd (sweep u mx (f # fs) arts)"
        proof -
          fix pre :: "feed list" assume l: "length pre = i"
          have "foldl pop ((pre @ [(es', t)]) @ r1) (rev m1) = (pre @ [(es', t)]) @ snd (sweep u mx fs arts)"
            using ih(5)[of "pre @ [(es', t)]"] l by simp
          then show "foldl pop (pre @ fs') (rev rem) = pre @ snd (sweep u mx (f # fs) arts)"
            using eqs f False Cons Inl l by (simp add: pop_at)
        qed
        moreover have "sorted rem" using ih(3,4) eqs by (auto)
        ultimately show ?thesis using ih eqs f False Cons Inl by auto
      next
        case (Inr a)
        obtain a1 r1 m1 where v: "visit_feeds u mx (Suc i) fs (arts @ [a]) = (a1, r1, m1)"
          by (cases "visit_feeds u mx (Suc i) fs (arts @ [a])")
        from Cons.IH[OF v] have ih: "a1 = fst (sweep u mx fs (arts @ [a]))" "length r1 = length fs" "sorted m1"
          "\<forall>x\<in>set m1. Suc i \<le> x \<and> x < Suc i + length fs"
          "\<And>pre. length pre = Suc i \<Longrightarrow> foldl pop (pre @ r1) (rev m1) = pre @ snd (sweep u mx fs (arts @ [a]))"
          by auto
        from Cons.prems f False Cons Inr v have eqs: "arts' = a1" "fs' = (es', t) # r1" "rem = m1" by auto
        have "\<And>pre. length pre = i \<Longrightarrow> foldl pop (pre @ fs') (rev rem) = pre @ snd (sweep u mx (f # fs) arts)"
        proof -
          fix pre :: "feed list" assume l: "length pre = i"
          have "foldl pop ((pre @ [(es', t)]) @ r1) (rev m1) = (pre @ [(es', t)]) @ snd (sweep u mx fs (arts @ [a]))"
            using ih(5)[of "pre @ [(es', t)]"] l by simp
          then show "foldl pop (pre @ fs') (rev rem) = pre @ snd (sweep u mx (f # fs) arts)"
            using eqs f False Cons Inr l by (simp add: split_beta)
        qed
        moreover have "\<forall>x\<in>set rem. i \<le> x \<and> x < i + length (f # fs)" using ih(4) eqs by auto
        ultimately show ?thesis using ih eqs f False Cons Inr by (auto simp: split_beta)
      qed
    qed
  qed
qed

lemma cycle_sweep: "cycle u mx (fs, arts) = (snd (sweep u mx fs arts), fst (sweep u mx fs arts))"
proof -
  obtain a1 r1 m1 where v: "visit_feeds u mx 0 fs arts = (a1, r1, m1)"
    by (cases "visit_feeds u mx 0 fs arts")
  from visit_feeds_sweep[OF v] have "a1 = fst (sweep u mx fs arts)" "sorted m1"
    "foldl pop ([] @ r1) (rev m1) = [] @ snd (sweep u mx fs arts)" by auto
  then show ?thesis using v by (simp add: cycle_def remove_feeds_def sorted_sort_id)
qed

definition remaining_work :: "feed list \<Rightarrow> nat" where
  "remaining_work fs = sum_list (map (\<lambda>f. Suc (length (fst f))) fs)"

lemma sweep_work_le: "remaining_work (snd (sweep u mx fs arts)) \<le> remaining_work fs"
proof (induction fs arbitrary: arts)
  case Nil
  then show ?case by simp
next
  case (Cons f rest)
  obtain es t where f: "f = (es, t)" by (cases f)
  have 1: "remaining_work (snd (sweep u mx rest arts)) \<le> remaining_work rest" by (rule Cons.IH)
  have 2: "\<And>a. remaining_work (snd (sweep u mx rest (arts @ [a]))) \<le> remaining_work rest" by (rule Cons.IH)
  show ?case
  proof (cases "mx \<le> int (length arts)")
    case True
    then show ?thesis using f by simp
  next
    case False
    show ?thesis
    proof (cases es)
      case Nil
      then show ?thesis using False f 1 by (simp add: remaining_work_def)
    next
      case (Cons e es')
      then show ?thesis using False f 1 2[of "projr (make_RSSFeed u t e)"]
        by (cases "make_RSSFeed u t e") (simp_all add: remaining_work_def split_beta)
    qed
  qed
qed

lemma sweep_work_less:
  assumes "int (length arts) < mx" and "fs \<noteq> []"
  shows "remaining_work (snd (sweep u mx fs arts)) < remaining_work fs"
proof -
  obtain es t rest where fs: "fs = (es, t) # rest" using assms(2) by (cases fs) auto
  have 1: "remaining_work (snd (sweep u mx rest arts)) \<le> remaining_work rest" by (rule sweep_work_le)
  have 2: "\<And>a. remaining_work (snd (sweep u mx rest (arts @ [a]))) \<le> remaining_work rest" by (rule sweep_work_le)
  show ?thesis
  proof (cases es)
    case Nil
    then show ?thesis using assms(1) fs 1 by (simp add: remaining_work_def)
  next
    case (Cons e es')
    then show ?thesis using assms(1) fs 1 2[of "projr (make_RSSFeed u t e)"]
      by (cases "make_RSSFeed u t e") (simp_all add: remaining_work_def split_beta)
  qed
qed

text \<open>
  Line 100: \<^verbatim>\<open>while len(articles) < max_articles and available_feeds\<close>. The state is the
  pair of \<^verbatim>\<open>available_feeds\<close> and \<^verbatim>\<open>articles\<close>; \<open>remaining_work\<close> decreases in each cycle.
\<close>

function round_robin_loop ::
  "(string \<Rightarrow> string option) \<Rightarrow> int \<Rightarrow> feed list \<times> RSSFeed list \<Rightarrow> feed list \<times> RSSFeed list" where
  "round_robin_loop http_url max_articles s =
     (if loop_cond max_articles s then round_robin_loop http_url max_articles (cycle http_url max_articles s)
      else s)"
  by pat_completeness auto
termination
proof (relation "measure (\<lambda>(u, mx, s). remaining_work (fst s))")
  show "wf (measure (\<lambda>(u, mx, s). remaining_work (fst s)))" by simp
next
  fix http_url max_articles and s :: "feed list \<times> RSSFeed list"
  assume "loop_cond max_articles s"
  then show "((http_url, max_articles, cycle http_url max_articles s), http_url, max_articles, s)
       \<in> measure (\<lambda>(u, mx, s). remaining_work (fst s))"
    by (cases s) (simp add: loop_cond_def cycle_sweep sweep_work_less)
qed

declare round_robin_loop.simps [simp del]

text \<open>
  Lines 112-117, the single-feed branch:
  \<^verbatim>\<open>for i, entry in enumerate(entry_iterator): if i >= max_articles: break; articles.append(RSSFeed(...))\<close>.
  There is no \<^verbatim>\<open>try\<close> here, so a rejected entry raises out of \<open>fetch_rss_feeds\<close>.
\<close>

fun single_source ::
  "(string \<Rightarrow> string option) \<Rightarrow> int \<Rightarrow> string \<Rightarrow> nat \<Rightarrow> raw_entry list \<Rightarrow> RSSFeed list
     \<Rightarrow> error + RSSFeed list" where
  "single_source http_url max_articles source_title i [] articles = Inr articles"
| "single_source http_url max_articles source_title i (entry # entries) articles =
    (if int i \<ge> max_articles then Inr articles
     else
       (case make_RSSFeed http_url source_title entry of
          Inl e \<Rightarrow> Inl e
        | Inr article \<Rightarrow>
            single_source http_url max_articles source_title (Suc i) entries (articles @ [article])))"

text \<open>Lines 97-120: the collection from the parsed feeds.\<close>

definition collect_articles ::
  "(string \<Rightarrow> string option) \<Rightarrow> string \<Rightarrow> int \<Rightarrow> feed list \<Rightarrow> error + RSSFeed list" where
  "collect_articles http_url src max_articles parsed_feeds =
    (if length parsed_feeds > 1 \<and> src = ''all'' then
       Inr (snd (round_robin_loop http_url max_articles (parsed_feeds, [])))
     else if length parsed_feeds = 1 then
       (case parsed_feeds of
          (entry_iterator, source_title) # _ \<Rightarrow>
            single_source http_url max_articles source_title 0 entry_iterator []
        | [] \<Rightarrow> Inr [])
     else Inr [])"

definition fetch_rss_feeds ::
  "(string \<Rightarrow> fetch_result) \<Rightarrow> (string \<Rightarrow> string option) \<Rightarrow> string \<Rightarrow> string option \<Rightarrow> int
     \<Rightarrow> error + RSSFeed list" where
  "fetch_rss_feeds parse http_url src custom_url max_articles =
     collect_articles http_url src max_articles (parse_feeds parse (select_urls src custom_url))"

section \<open>fetch_rss_feeds (cybersecurity-ai-news-intelligence)\<close>

text \<open>
  Lines 64-87 of the cybersecurity actor's tools.py, embedded on their own. Its
  \<^verbatim>\<open>RSSFeed\<close> model has the same five fields, so the record and its constructor are shared.
\<close>

fun cs_visit_feeds ::
  "(string \<Rightarrow> string option) \<Rightarrow> int \<Rightarrow> nat \<Rightarrow> feed list \<Rightarrow> RSSFeed list
     \<Rightarrow> RSSFeed list \<times> feed list \<times> nat list" where
  "cs_visit_feeds http_url max_articles i [] articles = (articles, [], [])"
| "cs_visit_feeds http_url max_articles i ((entry_iterator, source_title) # rest) articles =
    (if int (length articles) \<ge> max_articles then
       (articles, (entry_iterator, source_title) # rest, [])
     else
       (case entry_iterator of
          [] \<Rightarrow>
            (case cs_visit_feeds http_url max_articles (Suc i) rest articles of
               (articles', rest', feeds_to_remove) \<Rightarrow>
                 (articles', ([], source_title) # rest', i # feeds_to_remove))
        | entry # entries \<Rightarrow>
            (case make_RSSFeed http_url source_title entry of
               Inr article \<Rightarrow>
                 (case cs_visit_feeds http_url max_articles (Suc i) rest (articles @ [article]) of
                    (articles', rest', feeds_to_remove) \<Rightarrow>
                      (articles', (entries, source_title) # rest', feeds_to_remove))
             | Inl e \<Rightarrow>
                 (case cs_visit_feeds http_url max_articles (Suc i) rest articles of
                    (articles', rest', feeds_to_remove) \<Rightarrow>
                      (articles', (entries, source_title) # rest', i # feeds_to_remove)))))"

definition cs_cycle ::
  "(string \<Rightarrow> string option) \<Rightarrow> int \<Rightarrow> feed list \<times> RSSFeed list \<Rightarrow> feed list \<times> RSSFeed list" where
  "cs_cycle http_url max_articles s =
    (case cs_visit_feeds http_url max_articles 0 (fst s) (snd s) of
       (articles', feeds', feeds_to_remove) \<Rightarrow>
         (foldl pop feeds' (rev (sort feeds_to_remove)), articles'))"

lemma cs_visit_feeds_eq: "cs_visit_feeds u mx i fs arts = visit_feeds u mx i fs arts"
  by (induction u mx i fs arts rule: visit_feeds.induct)
     (simp_all split: list.splits sum.splits)

lemma cs_cycle_eq: "cs_cycle u mx s = cycle u mx s"
  by (simp add: cs_cycle_def cycle_def cs_visit_feeds_eq remove_feeds_def)

function cs_round_robin_loop ::
  "(string \<Rightarrow> string option) \<Rightarrow> int \<Rightarrow> feed list \<times> RSSFeed list \<Rightarrow> feed list \<times> RSSFeed list" where
  "cs_round_robin_loop http_url max_articles s =
     (if int (length (snd s)) < max_articles \<and> fst s \<noteq> [] then
        cs_round_robin_loop http_url max_articles (cs_cycle http_url max_articles s)
      else s)"
  by pat_completeness auto
termination
proof (relation "measure (\<lambda>(u, mx, s). remaining_work (fst s))")
  show "wf (measure (\<lambda>(u, mx, s). remaining_work (fst s)))" by simp
next
  fix http_url max_articles and s :: "feed list \<times> RSSFeed list"
  assume "int (length (snd s)) < max_articles \<and> fst s \<noteq> []"
  then show "((http_url, max_articles, cs_cycle http_url max_articles s), http_url, max_articles, s)
       \<in> measure (\<lambda>(u, mx, s). remaining_work (fst s))"
    by (cases s) (simp add: cs_cycle_eq cycle_sweep sweep_work_less)
qed

declare cs_round_robin_loop.simps [simp del]

fun cs_single_source ::
  "(string \<Rightarrow> string option) \<Rightarrow> int \<Rightarrow> string \<Rightarrow> nat \<Rightarrow> raw_entry list \<Rightarrow> RSSFeed list
     \<Rightarrow> error + RSSFeed list" where
  "cs_single_source http_url max_articles source_title i [] articles = Inr articles"
| "cs_single_source http_url max_articles source_title i (entry # entries) articles =
    (if int i \<ge> max_articles then Inr articles
     else
       (case make_RSSFeed http_url source_title entry of
          Inl e \<Rightarrow> Inl e
        | Inr article \<Rightarrow>
            cs_single_source http_url max_articles source_title (Suc i) entries
              (articles @ [article])))"

definition cs_collect_articles ::
  "(string \<Rightarrow> string option) \<Rightarrow> string \<Rightarrow> int \<Rightarrow> feed list \<Rightarrow> error + RSSFeed list" where
  "cs_collect_articles http_url src max_articles parsed_feeds =
    (if length parsed_feeds > 1 \<and> src = ''all'' then
       Inr (snd (cs_round_robin_loop http_url max_articles (parsed_feeds, [])))
     else if length parsed_feeds = 1 then
       (case parsed_feeds of
          (entry_iterator, source_title) # _ \<Rightarrow>
            cs_single_source http_url max_articles source_title 0 entry_iterator []
        | [] \<Rightarrow> Inr [])
     else Inr [])"

section \<open>The workflow of main.py (health-fitness-intelligence)\<close>

text \<open>
  \<^verbatim>\<open>class InputConfig(BaseModel)\<close>; its field \<^verbatim>\<open>source\<close> is \<open>config_source\<close> here, the name
  \<open>source\<close> being the field of \<open>RSSFeed\<close>.
\<close>

record InputConfig =
  config_source :: string
  customFeedUrl :: "string option"
  maxArticles :: int
  region :: string
  timeLimit :: string
  runTestMode :: bool

text \<open>\<^verbatim>\<open>class DatasetRecord(BaseModel)\<close>; the fields shared with \<open>RSSFeed\<close> carry a prefix.\<close>

record DatasetRecord =
  record_source :: "string option"
  record_title :: string
  url :: string
  record_published :: "string option"
  record_summary :: "string option"
  sentiment :: "string option"
  category :: "string option"
  key_entities :: "string list option"

text \<open>The dictionary that \<^verbatim>\<open>analyze_article_summary\<close> returns.\<close>

record analysis_results =
  result_sentiment :: string
  result_category :: string
  result_key_entities :: "string list"

text \<open>
  What a run does to the outside world, in the order it happens: a record pushed to the
  dataset, a key written to the key-value store.
\<close>

datatype effect =
    PushData DatasetRecord
  | SetValue string bool

text \<open>
  \<^verbatim>\<open>class WorkflowState(TypedDict)\<close>. The key-value store \<^verbatim>\<open>processed-urls-health\<close> is a map
  from keys to the stored value; \<open>effects\<close> is the log of the outside effects so far.
\<close>

record WorkflowState =
  config :: InputConfig
  articles :: "RSSFeed list"
  processed_count :: nat
  processed_urls_store :: "string \<rightharpoonup> bool"
  effects :: "effect list"

text \<open>
  The collaborators of the workflow: \<open>parse\<close> is \<^verbatim>\<open>feedparser.parse\<close>, \<open>http_url\<close> the
  pydantic validator, \<open>md5_hexdigest\<close> is \<^verbatim>\<open>hashlib.md5(s.encode('utf-8')).hexdigest()\<close>,
  \<open>search\<close> is \<^verbatim>\<open>fetch_summary_from_duckduckgo(query, is_test_mode, region, time_limit)\<close>
  (it returns the empty string on every failure), \<open>analyze\<close> is
  \<^verbatim>\<open>analyze_article_summary(summary, is_test_mode)\<close>, and \<open>push_succeeds\<close> tells whether
  \<^verbatim>\<open>Actor.push_data\<close> returns rather than raises.
\<close>

record collaborators =
  parse :: "string \<Rightarrow> fetch_result"
  http_url :: "string \<Rightarrow> string option"
  md5_hexdigest :: "string \<Rightarrow> string"
  search :: "string \<Rightarrow> bool \<Rightarrow> string \<Rightarrow> string \<Rightarrow> string"
  analyze :: "string \<Rightarrow> bool \<Rightarrow> analysis_results"
  push_succeeds :: "DatasetRecord \<Rightarrow> bool"

subsection \<open>rss_fetcher\<close>

text \<open>
  Lines 43-47: \<^verbatim>\<open>is_duplicate = await processed_urls_store.get_value(url_key)\<close>, and the
  article is new when \<^verbatim>\<open>not is_duplicate\<close>: the key is absent or holds a falsy value.
\<close>

definition is_duplicate :: "(string \<Rightarrow> string) \<Rightarrow> (string \<rightharpoonup> bool) \<Rightarrow> RSSFeed \<Rightarrow> bool" where
  "is_duplicate md5 store article =
     (case store (md5 (link article)) of None \<Rightarrow> False | Some v \<Rightarrow> v)"

text \<open>
  Lines 40-58, from the fetched articles on. \<^verbatim>\<open>a not in new_articles\<close> compares the models
  field by field, which is equality of records.
\<close>

definition select_articles ::
  "(string \<Rightarrow> string) \<Rightarrow> (string \<rightharpoonup> bool) \<Rightarrow> int \<Rightarrow> RSSFeed list \<Rightarrow> RSSFeed list" where
  "select_articles md5 store max_articles all_articles_from_feed =
    (let new_articles = filter (\<lambda>a. \<not> is_duplicate md5 store a) all_articles_from_feed in
     if int (length new_articles) < max_articles then
       (let needed = max_articles - int (length new_articles);
            remaining = take (nat needed)
                          (filter (\<lambda>a. a \<notin> set new_articles) all_articles_from_feed)
        in new_articles @ remaining)
     else new_articles)"

definition rss_fetcher :: "collaborators \<Rightarrow> WorkflowState \<Rightarrow> error + WorkflowState" where
  "rss_fetcher c state =
    (case fetch_rss_feeds (parse c) (http_url c) (config_source (config state))
            (customFeedUrl (config state)) (maxArticles (config state)) of
       Inl e \<Rightarrow> Inl e
     | Inr all_articles_from_feed \<Rightarrow>
         Inr (state\<lparr>articles :=
                      select_articles (md5_hexdigest c) (processed_urls_store state)
                        (maxArticles (config state)) all_articles_from_feed,
                    processed_count := 0\<rparr>))"

subsection \<open>strip_html_tags\<close>

text \<open>
  A Python string is held as its UTF-8 bytes. \<open>code_points\<close> cuts the bytes into
  characters: a character starts at a byte that is not a continuation byte (\<open>0x80\<close> to
  \<open>0xBF\<close>) and takes the continuation bytes behind it. \<^verbatim>\<open>len\<close> counts characters.
\<close>

definition is_continuation :: "char \<Rightarrow> bool" where
  "is_continuation c = (let n = (of_char c :: nat) in 128 \<le> n \<and> n \<le> 191)"

function code_points :: "string \<Rightarrow> string list" where
  "code_points [] = []"
| "code_points (c # cs) =
     (c # takeWhile is_continuation cs) # code_points (dropWhile is_continuation cs)"
  by pat_completeness auto
termination
  by (relation "measure length") (auto simp: length_dropWhile_le less_Suc_eq_le)

text \<open>
  \<^verbatim>\<open>str.strip()\<close> and \<^verbatim>\<open>str.split()\<close> cut at the characters for which \<^verbatim>\<open>str.isspace()\<close>
  holds: U+0009 to U+000D, U+001C to U+0020, U+0085, U+00A0, U+1680, U+2000 to U+200A,
  U+2028, U+2029, U+202F, U+205F and U+3000, here by their UTF-8 bytes.
\<close>

fun space_bytes :: "nat list \<Rightarrow> bool" where
  "space_bytes [n] = ((9 \<le> n \<and> n \<le> 13) \<or> (28 \<le> n \<and> n \<le> 32))"
| "space_bytes [a, b] = (a = 0xC2 \<and> (b = 0x85 \<or> b = 0xA0))"
| "space_bytes [a, b, c] =
     ((a = 0xE1 \<and> b = 0x9A \<and> c = 0x80) \<or>
      (a = 0xE2 \<and> b = 0x80 \<and> ((0x80 \<le> c \<and> c \<le> 0x8A) \<or> c = 0xA8 \<or> c = 0xA9 \<or> c = 0xAF)) \<or>
      (a = 0xE2 \<and> b = 0x81 \<and> c = 0x9F) \<or>
      (a = 0xE3 \<and> b = 0x80 \<and> c = 0x80))"
| "space_bytes bytes = False"

definition is_space :: "string \<Rightarrow> bool" where
  "is_space character = space_bytes (map of_char character)"

definition py_strip :: "string \<Rightarrow> string" where
  "py_strip s = concat (rev (dropWhile is_space (rev (dropWhile is_space (code_points s)))))"

fun split_words :: "string \<Rightarrow> string list \<Rightarrow> string list" where
  "split_words w [] = (if w = [] then [] else [w])"
| "split_words w (character # rest) =
    (if is_space character then
       (if w = [] then split_words [] rest else w # split_words [] rest)
     else split_words (w @ character) rest)"

fun join_words :: "string list \<Rightarrow> string" where
  "join_words [] = []"
| "join_words [w] = w"
| "join_words (w # ws) = w @ '' '' @ join_words ws"

text \<open>
  \<^verbatim>\<open>re.sub('<[^<]+?>', '', text)\<close>: a match is \<open><\<close>, one or more characters other than
  \<open><\<close>, as few as possible, then \<open>>\<close>. \<open>tag_end\<close> looks for the closing \<open>>\<close> once the first
  character of the tag is read, and returns the text behind the match.
\<close>

fun tag_end :: "string \<Rightarrow> string option" where
  "tag_end [] = None"
| "tag_end (c # cs) =
    (if c = CHR ''>'' then Some cs else if c = CHR ''<'' then None else tag_end cs)"

lemma tag_end_shorter: "tag_end cs = Some r \<Longrightarrow> length r < length cs"
  by (induction cs) (auto split: if_splits)

function remove_tags :: "string \<Rightarrow> string" where
  "remove_tags [] = []"
| "remove_tags (c # cs) =
    (if c = CHR ''<'' then
       (case cs of
          [] \<Rightarrow> [c]
        | d # ds \<Rightarrow>
            (if d = CHR ''<'' then c # remove_tags cs
             else (case tag_end ds of
                     Some r \<Rightarrow> remove_tags r
                   | None \<Rightarrow> c # remove_tags cs)))
     else c # remove_tags cs)"
  by pat_completeness auto
termination
  by (relation "measure length") (auto dest: tag_end_shorter)

definition strip_html_tags :: "string option \<Rightarrow> string" where
  "strip_html_tags text =
    (if \<not> truthy text then []
     else (case text of None \<Rightarrow> [] | Some t \<Rightarrow> join_words (split_words [] (code_points (remove_tags t)))))"

subsection \<open>process_and_save_article\<close>

text \<open>
  Lines 60-129. The result pairs the exception raised, if any, with the state reached at
  that point. \<^verbatim>\<open>art.summary = ai_overview\<close> changes the article inside the state's list.
\<close>

definition find_overview :: "collaborators \<Rightarrow> InputConfig \<Rightarrow> RSSFeed \<Rightarrow> string" where
  "find_overview c cfg art =
    (let query_strict = ''\"'' @ title art @ ''\"'';
         ai_overview = search c query_strict (runTestMode cfg) (region cfg) (timeLimit cfg);
         ai_overview =
           (if ai_overview = [] then
              (let query_loose = py_strip (filter (\<lambda>ch. ch \<noteq> CHR ''\"'') (title art))
               in search c query_loose (runTestMode cfg) (region cfg) (timeLimit cfg))
            else ai_overview);
         ai_overview =
           (if ai_overview = [] \<and> truthy (summary art) \<and>
               (case summary art of None \<Rightarrow> False | Some s \<Rightarrow> length (code_points (py_strip s)) \<ge> 50)
            then strip_html_tags (summary art)
            else ai_overview)
     in ai_overview)"

definition process_and_save_article ::
  "collaborators \<Rightarrow> WorkflowState \<Rightarrow> error option \<times> WorkflowState" where
  "process_and_save_article c state =
    (if processed_count state \<ge> length (articles state) then (None, state)
     else
       (let art = articles state ! processed_count state;
            ai_overview = find_overview c (config state) art
        in if ai_overview = [] then
             (None, state\<lparr>processed_count := processed_count state + 1\<rparr>)
           else
             (let art = art\<lparr>summary := Some ai_overview\<rparr>;
                  state = state\<lparr>articles := (articles state)[processed_count state := art]\<rparr>;
                  analysis = analyze c ai_overview (runTestMode (config state));
                  dataset_record =
                    \<lparr>record_source = source art, record_title = title art, url = link art,
                     record_published = published art, record_summary = summary art,
                     sentiment = Some (result_sentiment analysis),
                     category = Some (result_category analysis),
                     key_entities = Some (result_key_entities analysis)\<rparr>
              in if \<not> push_succeeds c dataset_record then (Some PushDataError, state)
                 else
                   (let state = state\<lparr>effects := effects state @ [PushData dataset_record]\<rparr>;
                        url_key = md5_hexdigest c (link art);
                        state = state\<lparr>processed_urls_store :=
                                         (processed_urls_store state)(url_key \<mapsto> True),
                                       effects := effects state @ [SetValue url_key True]\<rparr>
                    in (None, state\<lparr>processed_count := processed_count state + 1\<rparr>)))))"

subsection \<open>should_continue and the graph\<close>

definition should_continue :: "WorkflowState \<Rightarrow> string" where
  "should_continue state =
     (if processed_count state < length (articles state) then ''continue'' else ''end'')"

lemma process_and_save_article_count:
  "process_and_save_article c state = (None, state') \<Longrightarrow>
     processed_count state < length (articles state) \<Longrightarrow>
     processed_count state' = Suc (processed_count state) \<and>
     length (articles state') = length (articles state)"
  by (auto simp: process_and_save_article_def Let_def split: if_splits)

text \<open>
  The edges out of \<^verbatim>\<open>ProcessAndSaveArticle\<close>: the node runs again while \<open>should_continue\<close>
  says so; an exception ends the run.
\<close>

function process_articles :: "collaborators \<Rightarrow> WorkflowState \<Rightarrow> error option \<times> WorkflowState" where
  "process_articles c state =
    (if should_continue state = ''continue'' then
       (case process_and_save_article c state of
          (Some e, state') \<Rightarrow> (Some e, state')
        | (None, state') \<Rightarrow> process_articles c state')
     else (None, state))"
  by pat_completeness auto
termination
  apply (relation "measure (\<lambda>(c, s). length (articles s) - processed_count s)")
   apply simp
  apply (auto simp: should_continue_def split: if_splits
              dest!: process_and_save_article_count[OF sym])
  done

declare process_articles.simps [simp del]

text \<open>
  The graph of \<open>main\<close>: the entry point \<^verbatim>\<open>RSSFetcher\<close>, then the conditional edges. The run
  starts with no articles and \<open>processed_count = 0\<close>.
\<close>

definition run_graph :: "collaborators \<Rightarrow> WorkflowState \<Rightarrow> error option \<times> WorkflowState" where
  "run_graph c state =
    (case rss_fetcher c state of
       Inl e \<Rightarrow> (Some e, state)
     | Inr state' \<Rightarrow> process_articles c state')"

section \<open>fetch_summary_from_google (gdelt-news)\<close>

text \<open>
  The outcome of one \<^verbatim>\<open>client.get(search_url, params=params)\<close>: an exception (time-out,
  connection error), or a response with its status code and body. The body is not JSON,
  or a JSON object whose key \<^verbatim>\<open>items\<close> is absent or lists the items, each with its
  optional \<^verbatim>\<open>snippet\<close>.
\<close>

datatype search_body =
    NotJson
  | Json "string option list option"

datatype http_outcome =
    Raises
  | Response nat search_body

text \<open>What the call does besides returning: a request sent, a pause of so many seconds.\<close>

datatype search_event =
    Get
  | Sleep nat

text \<open>
  The environment of the call: the two environment variables, the outcome of the request
  of each attempt, whether \<^verbatim>\<open>init_openai()\<close> returns a client, and the chat completion
  for the given snippets.
\<close>

record google_env =
  GOOGLE_API_KEY :: "string option"
  GOOGLE_CSE_ID :: "string option"
  get_outcome :: "string \<Rightarrow> nat \<Rightarrow> http_outcome"
  openai_client :: bool
  chat_completion :: "string \<Rightarrow> error + string"

text \<open>
  Lines 56-86, \<^verbatim>\<open>summarize_snippets_with_llm\<close>: \<^verbatim>\<open>init_openai()\<close> is called outside the
  \<^verbatim>\<open>try\<close>, the completion inside.
\<close>

definition summarize_snippets_with_llm :: "google_env \<Rightarrow> string \<Rightarrow> bool \<Rightarrow> error + string" where
  "summarize_snippets_with_llm env snippets is_test_mode =
    (if is_test_mode then
       Inr ''This is a test summary generated from dummy search snippets about a recent cybersecurity or geopolitical event.''
     else if \<not> openai_client env then Inl RequestError
     else (case chat_completion env snippets of
             Inl e \<Rightarrow> Inr []
           | Inr content \<Rightarrow> Inr (py_strip content)))"

datatype step = Continue | Return string

fun join_lines :: "string list \<Rightarrow> string" where
  "join_lines [] = []"
| "join_lines [l] = l"
| "join_lines (l # ls) = l @ [CHR 0x0A] @ join_lines ls"

text \<open>
  Lines 190-217, the body of the \<^verbatim>\<open>try\<close> of one attempt. \<^verbatim>\<open>raise_for_status\<close> of httpx
  raises for every status that is not a success (200 to 299).
\<close>

definition attempt_body ::
  "google_env \<Rightarrow> string \<Rightarrow> nat \<Rightarrow> nat \<Rightarrow> search_event list \<times> (error + step)" where
  "attempt_body env query MAX_RETRIES attempt =
    (case get_outcome env query attempt of
       Raises \<Rightarrow> ([Get], Inl RequestError)
     | Response status_code body \<Rightarrow>
         (if status_code = 403 then
            (if attempt < MAX_RETRIES - 1 then
               (let delay = 2 ^ (attempt + 1) in ([Get, Sleep delay], Inr Continue))
             else ([Get], Inr (Return [])))
          else if \<not> (200 \<le> status_code \<and> status_code \<le> 299) then
            ([Get], Inl (HTTPStatusError status_code))
          else
            (case body of
               NotJson \<Rightarrow> ([Get], Inl RequestError)
             | Json search_results \<Rightarrow>
                 (let items = (case search_results of None \<Rightarrow> [] | Some xs \<Rightarrow> xs) in
                  if items = [] then ([Get], Inr (Return []))
                  else
                    (let snippets =
                           join_lines
                             (map (\<lambda>item. ''- '' @ (case item of None \<Rightarrow> [] | Some s \<Rightarrow> s)) items)
                     in (case summarize_snippets_with_llm env snippets False of
                           Inl e \<Rightarrow> ([Get], Inl e)
                         | Inr s \<Rightarrow> ([Get], Inr (Return s))))))))"

text \<open>
  Lines 219-224: both \<^verbatim>\<open>except\<close> clauses log and \<^verbatim>\<open>return ""\<close>; the second one catches
  every \<^verbatim>\<open>Exception\<close>.
\<close>

definition attempt ::
  "google_env \<Rightarrow> string \<Rightarrow> nat \<Rightarrow> nat \<Rightarrow> search_event list \<times> (error + step)" where
  "attempt env query MAX_RETRIES k =
    (case attempt_body env query MAX_RETRIES k of
       (events, Inl (HTTPStatusError code)) \<Rightarrow> (events, Inr (Return []))
     | (events, Inl e) \<Rightarrow> (events, Inr (Return []))
     | (events, Inr s) \<Rightarrow> (events, Inr s))"

text \<open>
  Lines 186-226: \<^verbatim>\<open>for attempt in range(MAX_RETRIES)\<close>, over the attempts still to come;
  after the loop, \<^verbatim>\<open>return ""\<close>.
\<close>

fun retry_loop ::
  "google_env \<Rightarrow> string \<Rightarrow> nat \<Rightarrow> nat list \<Rightarrow> search_event list \<times> (error + string)" where
  "retry_loop env query MAX_RETRIES [] = ([], Inr [])"
| "retry_loop env query MAX_RETRIES (k # later) =
    (case attempt env query MAX_RETRIES k of
       (events, Inl e) \<Rightarrow> (events, Inl e)
     | (events, Inr (Return s)) \<Rightarrow> (events, Inr s)
     | (events, Inr Continue) \<Rightarrow>
         (case retry_loop env query MAX_RETRIES later of
            (events', r) \<Rightarrow> (events @ events', r)))"

definition fetch_summary_from_google ::
  "google_env \<Rightarrow> string \<Rightarrow> bool \<Rightarrow> search_event list \<times> (error + string)" where
  "fetch_summary_from_google env query is_test_mode =
    (if is_test_mode then ([], summarize_snippets_with_llm env [] True)
     else if \<not> truthy (GOOGLE_API_KEY env) \<or> \<not> truthy (GOOGLE_CSE_ID env) then ([], Inr [])
     else (let MAX_RETRIES = 3 in retry_loop env query MAX_RETRIES [0..<MAX_RETRIES]))"

section \<open>The round-robin order\<close>

text \<open>
  The order the specification describes: the first entries of all sources in the order of
  the configuration, then their second entries, and so on, a source with no entry left
  being passed over. \<open>interleave\<close> is this order on a list of lists.
\<close>

fun first_entries :: "'a list list \<Rightarrow> 'a list" where
  "first_entries [] = []"
| "first_entries ([] # xss) = first_entries xss"
| "first_entries ((x # xs) # xss) = x # first_entries xss"

fun rest_entries :: "'a list list \<Rightarrow> 'a list list" where
  "rest_entries [] = []"
| "rest_entries ([] # xss) = rest_entries xss"
| "rest_entries ((x # xs) # xss) = xs # rest_entries xss"

lemma entries_split:
  "length (first_entries xss) + sum_list (map length (rest_entries xss)) = sum_list (map length xss)"
  by (induction xss rule: first_entries.induct) simp_all

function interleave :: "'a list list \<Rightarrow> 'a list" where
  "interleave xss =
     (if first_entries xss = [] then [] else first_entries xss @ interleave (rest_entries xss))"
  by pat_completeness auto
termination
proof (relation "measure (\<lambda>xss. sum_list (map length xss))")
  show "wf (measure (\<lambda>xss. sum_list (map length xss)))" by simp
next
  fix xss :: "'a list list"
  assume "first_entries xss \<noteq> []"
  then have "0 < length (first_entries xss)" by simp
  with entries_split[of xss]
  have "sum_list (map length (rest_entries xss)) < sum_list (map length xss)" by linarith
  then show "(rest_entries xss, xss) \<in> measure (\<lambda>xss. sum_list (map length xss))" by simp
qed

declare interleave.simps [simp del]

text \<open>
  The entries a source can contribute: the articles of its entries up to, and without, the
  first one that the constructor rejects.
\<close>

fun available :: "(string \<Rightarrow> string option) \<Rightarrow> string \<Rightarrow> raw_entry list \<Rightarrow> RSSFeed list" where
  "available u t [] = []"
| "available u t (e # es) =
    (case make_RSSFeed u t e of Inl err \<Rightarrow> [] | Inr a \<Rightarrow> a # available u t es)"

definition feed_articles :: "(string \<Rightarrow> string option) \<Rightarrow> feed \<Rightarrow> RSSFeed list" where
  "feed_articles u f = available u (snd f) (fst f)"

lemma first_entries_Nil: "first_entries xss = [] \<Longrightarrow> sum_list (map length xss) = 0"
  by (induction xss rule: first_entries.induct) simp_all

lemma length_interleave: "length (interleave xss) = sum_list (map length xss)"
proof (induction xss rule: interleave.induct)
  case (1 xss)
  show ?case
  proof (cases "first_entries xss = []")
    case True
    with first_entries_Nil[of xss] show ?thesis by (subst interleave.simps) simp
  next
    case False
    with 1 entries_split[of xss] show ?thesis by (subst interleave.simps) simp
  qed
qed

lemma interleave_unfold: "interleave xss = first_entries xss @ interleave (rest_entries xss)"
proof (cases "first_entries xss = []")
  case True
  then have "sum_list (map length (rest_entries xss)) = 0"
    using first_entries_Nil[of xss] entries_split[of xss] by simp
  then have "length (interleave (rest_entries xss)) = 0"
    by (simp only: length_interleave)
  then have "interleave (rest_entries xss) = []" by simp
  with True show ?thesis by (subst interleave.simps) simp
next
  case False
  then show ?thesis by (subst interleave.simps) simp
qed

lemma sweep_articles:
  "fst (sweep u mx fs arts) =
     arts @ take (nat (mx - int (length arts))) (first_entries (map (feed_articles u) fs))"
proof (induction fs arbitrary: arts)
  case Nil
  then show ?case by simp
next
  case (Cons f rest)
  obtain es t where f: "f = (es, t)" by (cases f)
  show ?case
  proof (cases "mx \<le> int (length arts)")
    case True
    then show ?thesis using f by simp
  next
    case False
    show ?thesis
    proof (cases es)
      case Nil
      then show ?thesis using False f Cons.IH[of arts] by (simp add: feed_articles_def)
    next
      case (Cons e es')
      show ?thesis
      proof (cases "make_RSSFeed u t e")
        case (Inl err)
        then show ?thesis using False f Cons Cons.IH[of arts] by (simp add: feed_articles_def)
      next
        case (Inr a)
        have "nat (mx - int (length arts)) = Suc (nat (mx - (1 + int (length arts))))"
          using False by simp
        then show ?thesis using False f Cons Inr Cons.IH[of "arts @ [a]"]
          by (simp add: feed_articles_def split_beta)
      qed
    qed
  qed
qed

lemma sweep_length_mono: "length arts \<le> length (fst (sweep u mx fs arts))"
  by (simp add: sweep_articles)

lemma sweep_feeds:
  "int (length (fst (sweep u mx fs arts))) < mx \<Longrightarrow>
   map (feed_articles u) (snd (sweep u mx fs arts)) = rest_entries (map (feed_articles u) fs)"
proof (induction fs arbitrary: arts)
  case Nil
  then show ?case by simp
next
  case (Cons f rest)
  obtain es t where f: "f = (es, t)" by (cases f)
  have nb: "\<not> mx \<le> int (length arts)"
    using Cons.prems sweep_length_mono[of arts u mx "f # rest"] by linarith
  show ?case
  proof (cases es)
    case Nil
    then show ?thesis using nb f Cons.IH[of arts] Cons.prems by (simp add: feed_articles_def)
  next
    case (Cons e es')
    show ?thesis
    proof (cases "make_RSSFeed u t e")
      case (Inl err)
      then show ?thesis using nb f Cons Cons.IH[of arts] Cons.prems by (simp add: feed_articles_def)
    next
      case (Inr a)
      then show ?thesis using nb f Cons Cons.IH[of "arts @ [a]"] Cons.prems
        by (simp add: feed_articles_def split_beta)
    qed
  qed
qed

text \<open>
  The loop returns the articles it started with, followed by the round-robin order of the
  feeds' available entries, cut at the quota.
\<close>

lemma round_robin_loop_interleave:
  "snd (round_robin_loop u mx (fs, arts)) =
     arts @ take (nat (mx - int (length arts))) (interleave (map (feed_articles u) fs))"
proof (induction u mx "(fs, arts)" arbitrary: fs arts rule: round_robin_loop.induct)
  case (1 u mx)
  let ?L = "map (feed_articles u) fs"
  let ?k = "nat (mx - int (length arts))"
  show ?case
  proof (cases "loop_cond mx (fs, arts)")
    case False
    then have "mx \<le> int (length arts) \<or> fs = []" by (auto simp: loop_cond_def)
    then have "take ?k (interleave ?L) = []"
      by (auto simp: interleave.simps[of "[]"])
    with False show ?thesis by (subst round_robin_loop.simps) simp
  next
    case True
    let ?arts' = "fst (sweep u mx fs arts)"
    let ?fs' = "snd (sweep u mx fs arts)"
    have step: "round_robin_loop u mx (fs, arts) = round_robin_loop u mx (?fs', ?arts')"
      using True by (subst round_robin_loop.simps) (simp add: cycle_sweep)
    have arts': "?arts' = arts @ take ?k (first_entries ?L)" by (rule sweep_articles)
    have ih: "snd (round_robin_loop u mx (?fs', ?arts')) =
        ?arts' @ take (nat (mx - int (length ?arts'))) (interleave (map (feed_articles u) ?fs'))"
      using 1[OF True] by (simp add: cycle_sweep)
    show ?thesis
    proof (cases "int (length ?arts') < mx")
      case lt: True
      then have all: "take ?k (first_entries ?L) = first_entries ?L"
        using arts' by (simp add: min_def split: if_splits)
      have rest: "map (feed_articles u) ?fs' = rest_entries ?L" using lt by (rule sweep_feeds)
      have len: "length ?arts' = length arts + length (first_entries ?L)" using arts' all by simp
      have "interleave ?L = first_entries ?L @ interleave (rest_entries ?L)"
        by (rule interleave_unfold)
      then have "take ?k (interleave ?L) =
          first_entries ?L @ take (?k - length (first_entries ?L)) (interleave (rest_entries ?L))"
        using all by (simp add: take_all_iff)
      moreover have "nat (mx - int (length ?arts')) = ?k - length (first_entries ?L)"
        using len by simp
      ultimately show ?thesis using step ih arts' all rest by simp
    next
      case ge: False
      then have stop: "round_robin_loop u mx (?fs', ?arts') = (?fs', ?arts')"
        by (subst round_robin_loop.simps) (simp add: loop_cond_def)
      have pos: "0 < ?k" using True by (simp add: loop_cond_def)
      have "length (take ?k (first_entries ?L)) = ?k"
        using ge arts' True by (simp add: loop_cond_def min_def split: if_splits)
      then have le: "?k \<le> length (first_entries ?L)" by simp
      then have ne: "first_entries ?L \<noteq> []" using pos by auto
      have "take ?k (interleave ?L) = take ?k (first_entries ?L)"
        using ne le by (subst interleave.simps) simp
      then show ?thesis using step stop arts' by simp
    qed
  qed
qed


subsection \<open>One source inside the round-robin order\<close>

text \<open>
  \<open>carries P xs xss\<close>: the list \<open>xs\<close> is one of the lists \<open>xss\<close>, all its elements satisfy
  \<open>P\<close>, and no element of the other lists does. With \<open>P\<close> the test for a source, \<open>xs\<close>
  is what that source has to offer.
\<close>

definition carries :: "('a \<Rightarrow> bool) \<Rightarrow> 'a list \<Rightarrow> 'a list list \<Rightarrow> bool" where
  "carries P xs xss =
     (\<exists>A B. xss = A @ xs # B \<and> (\<forall>x\<in>set xs. P x) \<and> (\<forall>ys\<in>set A \<union> set B. \<forall>y\<in>set ys. \<not> P y))"

lemma first_entries_append: "first_entries (A @ B) = first_entries A @ first_entries B"
  by (induction A rule: first_entries.induct) simp_all

lemma rest_entries_append: "rest_entries (A @ B) = rest_entries A @ rest_entries B"
  by (induction A rule: rest_entries.induct) simp_all

lemma set_first_entries: "x \<in> set (first_entries A) \<Longrightarrow> \<exists>ys\<in>set A. x \<in> set ys"
  by (induction A rule: first_entries.induct) auto

lemma set_rest_entries: "zs \<in> set (rest_entries A) \<Longrightarrow> \<exists>ys\<in>set A. set zs \<subseteq> set ys"
  by (induction A rule: rest_entries.induct) auto

lemma filter_first_entries_none:
  "\<forall>ys\<in>set A. \<forall>y\<in>set ys. \<not> P y \<Longrightarrow> filter P (first_entries A) = []"
  using set_first_entries[of _ A] by (auto simp: filter_empty_conv)

lemma rest_entries_none:
  "\<forall>ys\<in>set A. \<forall>y\<in>set ys. \<not> P y \<Longrightarrow> \<forall>zs\<in>set (rest_entries A). \<forall>z\<in>set zs. \<not> P z"
  using set_rest_entries[of _ A] by blast

lemma set_interleave: "x \<in> set (interleave xss) \<Longrightarrow> \<exists>ys\<in>set xss. x \<in> set ys"
proof (induction xss rule: interleave.induct)
  case (1 xss)
  show ?case
  proof (cases "first_entries xss = []")
    case True
    with "1.prems" show ?thesis by (simp add: interleave.simps[of xss])
  next
    case False
    from "1.prems" False have "x \<in> set (first_entries xss) \<or> x \<in> set (interleave (rest_entries xss))"
      by (simp add: interleave.simps[of xss])
    then show ?thesis
    proof
      assume "x \<in> set (first_entries xss)"
      then show ?thesis by (rule set_first_entries)
    next
      assume "x \<in> set (interleave (rest_entries xss))"
      from "1.IH"[OF False this] obtain zs where "zs \<in> set (rest_entries xss)" "x \<in> set zs" by blast
      then show ?thesis using set_rest_entries[of zs xss] by blast
    qed
  qed
qed

lemma carries_Nil:
  assumes "carries P [] xss"
  shows "filter P (take k (interleave xss)) = []"
proof -
  from assms obtain A B where xss: "xss = A @ [] # B"
    and n: "\<forall>ys\<in>set A \<union> set B. \<forall>y\<in>set ys. \<not> P y"
    unfolding carries_def by blast
  have "\<forall>ys\<in>set xss. \<forall>y\<in>set ys. \<not> P y" unfolding xss using n by simp
  then have "\<forall>x\<in>set (interleave xss). \<not> P x" using set_interleave[of _ xss] by blast
  then show ?thesis by (auto simp: filter_empty_conv dest: in_set_takeD)
qed

lemma carries_Cons:
  assumes "carries P (x # xs) xss"
  shows "filter P (first_entries xss) = [x]" and "carries P xs (rest_entries xss)"
proof -
  from assms obtain A B where xss: "xss = A @ (x # xs) # B" and px: "\<forall>z\<in>set (x # xs). P z"
    and n: "\<forall>ys\<in>set A \<union> set B. \<forall>y\<in>set ys. \<not> P y"
    unfolding carries_def by blast
  from n have nA: "\<forall>ys\<in>set A. \<forall>y\<in>set ys. \<not> P y" by blast
  from n have nB: "\<forall>ys\<in>set B. \<forall>y\<in>set ys. \<not> P y" by blast
  show "filter P (first_entries xss) = [x]"
    using px by (simp add: xss first_entries_append filter_first_entries_none[OF nA]
        filter_first_entries_none[OF nB])
  have "rest_entries xss = rest_entries A @ xs # rest_entries B"
    by (simp add: xss rest_entries_append)
  then show "carries P xs (rest_entries xss)"
    unfolding carries_def using px rest_entries_none[OF nA] rest_entries_none[OF nB]
    by (intro exI[of _ "rest_entries A"] exI[of _ "rest_entries B"]) auto
qed

lemma filter_interleave:
  "carries P xs xss \<Longrightarrow> filter P (interleave xss) = xs"
proof (induction xss arbitrary: xs rule: interleave.induct)
  case (1 xss)
  show ?case
  proof (cases xs)
    case Nil
    with "1.prems" carries_Nil[of P xss "length (interleave xss)"] show ?thesis by simp
  next
    case (Cons x xs')
    from carries_Cons[OF "1.prems"[unfolded Cons]]
    have f: "filter P (first_entries xss) = [x]" and c: "carries P xs' (rest_entries xss)" by auto
    from f have ne: "first_entries xss \<noteq> []" by auto
    from "1.IH"[OF ne c] f show ?thesis
      by (subst interleave_unfold) (simp add: Cons)
  qed
qed

lemma filter_take_prefix:
  "filter P (take k zs) = take (length (filter P (take k zs))) (filter P zs)"
proof (induction zs arbitrary: k)
  case Nil
  then show ?case by simp
next
  case (Cons z zs)
  then show ?case by (cases k) auto
qed

lemma filter_take_interleave:
  "carries P xs xss \<Longrightarrow>
   filter P (take k (interleave xss)) = take (length (filter P (take k (interleave xss)))) xs"
  using filter_take_prefix[of P k "interleave xss"] by (simp add: filter_interleave)

lemma count_take_le: "length (filter P (take k zs)) \<le> length (filter P zs)"
proof -
  have "length (take (length (filter P (take k zs))) (filter P zs)) \<le> length (filter P zs)"
    by simp
  then show ?thesis by (simp only: filter_take_prefix[symmetric])
qed

lemma interleave_fair:
  "carries P xs xss \<Longrightarrow> carries Q ys xss \<Longrightarrow>
   length (filter P (take k (interleave xss))) \<le> length (filter Q (take k (interleave xss))) + 1 \<or>
   length (filter Q (take k (interleave xss))) = length ys"
proof (induction xss arbitrary: xs ys k rule: interleave.induct)
  case (1 xss)
  show ?case
  proof (cases xs)
    case Nil
    with "1.prems"(1) carries_Nil[of P xss k] show ?thesis by simp
  next
    case xs: (Cons x xs')
    show ?thesis
    proof (cases ys)
      case Nil
      with "1.prems"(2) carries_Nil[of Q xss k] show ?thesis by simp
    next
      case ys: (Cons y ys')
      from carries_Cons[OF "1.prems"(1)[unfolded xs]]
      have fp: "filter P (first_entries xss) = [x]" and cp: "carries P xs' (rest_entries xss)" by auto
      from carries_Cons[OF "1.prems"(2)[unfolded ys]]
      have fq: "filter Q (first_entries xss) = [y]" and cq: "carries Q ys' (rest_entries xss)" by auto
      from fp have ne: "first_entries xss \<noteq> []" by auto
      let ?F = "first_entries xss" and ?I = "interleave (rest_entries xss)"
      have out: "take k (interleave xss) = take k ?F @ take (k - length ?F) ?I"
        by (subst interleave_unfold) simp
      show ?thesis
      proof (cases "k < length ?F")
        case True
        then have "take k (interleave xss) = take k ?F" using out by simp
        moreover have "length (filter P (take k ?F)) \<le> 1"
          using count_take_le[of P k ?F] fp by simp
        ultimately show ?thesis by simp
      next
        case False
        then have "take k (interleave xss) = ?F @ take (k - length ?F) ?I" using out by simp
        then have "length (filter P (take k (interleave xss))) =
              1 + length (filter P (take (k - length ?F) ?I))"
          and "length (filter Q (take k (interleave xss))) =
              1 + length (filter Q (take (k - length ?F) ?I))"
          using fp fq by simp_all
        with "1.IH"[OF ne cp cq, of "k - length ?F"] ys show ?thesis by auto
      qed
    qed
  qed
qed


section \<open>The two collection loops compute the same\<close>

lemma cs_round_robin_loop_eq: "cs_round_robin_loop u mx s = round_robin_loop u mx s"
proof (induction u mx s rule: round_robin_loop.induct)
  case (1 u mx s)
  show ?case
  proof (cases "loop_cond mx s")
    case True
    then have "cs_round_robin_loop u mx s = cs_round_robin_loop u mx (cycle u mx s)"
      by (subst cs_round_robin_loop.simps) (simp add: loop_cond_def cs_cycle_eq)
    also have "\<dots> = round_robin_loop u mx (cycle u mx s)" using 1[OF True] .
    also have "\<dots> = round_robin_loop u mx s" using True by (subst (2) round_robin_loop.simps) simp
    finally show ?thesis .
  next
    case False
    then show ?thesis
      by (subst cs_round_robin_loop.simps, subst round_robin_loop.simps) (auto simp add: loop_cond_def)
  qed
qed

lemma cs_single_source_eq: "cs_single_source u mx t i es arts = single_source u mx t i es arts"
  by (induction es arbitrary: i arts) (simp_all split: sum.splits)

text \<open>
  Claim C10. The collection loops of the health-fitness and of the cybersecurity actor are
  equivalent: on the same parsed feeds (the per-source entry lists with their titles), the
  same source selector and the same \<open>max_articles\<close>, both return the same outcome, that is
  the same sequence of articles, element for element, or the same exception.
\<close>

theorem collection_loops_equivalent:
  "cs_collect_articles validator src max_articles parsed_feeds =
   collect_articles validator src max_articles parsed_feeds"
  by (simp add: cs_collect_articles_def collect_articles_def cs_round_robin_loop_eq
        cs_single_source_eq split: list.splits)

section \<open>The retry policy of the Google search call\<close>

text \<open>
  An outcome is \<open>blocked\<close> when the response has status 403. It has \<open>failed\<close> when the
  request raised, or the response has another status outside 200 to 299, or a body that
  is not JSON, or no items.
\<close>

definition blocked :: "http_outcome \<Rightarrow> bool" where
  "blocked outcome =
     (case outcome of Raises \<Rightarrow> False | Response status_code body \<Rightarrow> status_code = 403)"

definition failed :: "http_outcome \<Rightarrow> bool" where
  "failed outcome =
    (case outcome of
       Raises \<Rightarrow> True
     | Response status_code body \<Rightarrow>
         status_code \<noteq> 403 \<and>
         (\<not> (200 \<le> status_code \<and> status_code \<le> 299) \<or> body = NotJson \<or>
          body = Json None \<or> body = Json (Some [])))"

lemma upt_3: "[0..<3] = [0, 1, 2::nat]"
  by (simp add: upt_rec)

lemma attempt_blocked:
  "blocked (get_outcome env q k) \<Longrightarrow>
   attempt env q 3 k =
     (if k < 2 then ([Get, Sleep (2 ^ (k + 1))], Inr Continue) else ([Get], Inr (Return [])))"
  by (auto simp: blocked_def attempt_def attempt_body_def split: http_outcome.splits)

lemma attempt_not_blocked:
  "\<not> blocked (get_outcome env q k) \<Longrightarrow> \<exists>s. attempt env q 3 k = ([Get], Inr (Return s))"
  by (auto simp: blocked_def attempt_def attempt_body_def Let_def
           split: http_outcome.splits search_body.splits sum.splits error.splits)

lemma attempt_failed:
  "failed (get_outcome env q k) \<Longrightarrow> attempt env q 3 k = ([Get], Inr (Return []))"
  by (auto simp: failed_def attempt_def attempt_body_def Let_def
           split: http_outcome.splits search_body.splits sum.splits error.splits option.splits)

lemma failed_not_blocked: "failed outcome \<Longrightarrow> \<not> blocked outcome"
  by (auto simp: failed_def blocked_def split: http_outcome.splits)

lemma retry_loop_cases:
  "retry_loop env q 3 [0, 1, 2] =
    (if \<not> blocked (get_outcome env q 0) then
       ([Get], case snd (attempt env q 3 0) of Inr (Return s) \<Rightarrow> Inr s | _ \<Rightarrow> Inr [])
     else if \<not> blocked (get_outcome env q 1) then
       ([Get, Sleep 2, Get],
        case snd (attempt env q 3 1) of Inr (Return s) \<Rightarrow> Inr s | _ \<Rightarrow> Inr [])
     else if \<not> blocked (get_outcome env q 2) then
       ([Get, Sleep 2, Get, Sleep 4, Get],
        case snd (attempt env q 3 2) of Inr (Return s) \<Rightarrow> Inr s | _ \<Rightarrow> Inr [])
     else ([Get, Sleep 2, Get, Sleep 4, Get], Inr []))"
  apply (cases "blocked (get_outcome env q 0)"; cases "blocked (get_outcome env q 1)";
         cases "blocked (get_outcome env q 2)")
  using attempt_not_blocked[of env q 0] attempt_not_blocked[of env q 1]
    attempt_not_blocked[of env q 2]
  by (auto simp: attempt_blocked)

text \<open>
  Claim C9. With both keys set and outside test mode, the Google search call
  \<^item> never raises: its result is a string;
  \<^item> sends at most 3 requests;
  \<^item> retries after a 403 response only: it pauses 2 seconds after the first and 4 seconds
    after the second (the delay doubles), and when the third is blocked too it gives up
    and returns the empty string;
  \<^item> sends no further request after any outcome other than 403;
  \<^item> returns the empty string, without another request, when the request raised, the
    status is another code outside 200 to 299, the body is not JSON or there are no items.
\<close>

theorem google_search_retry_policy:
  assumes "truthy (GOOGLE_API_KEY env)" and "truthy (GOOGLE_CSE_ID env)"
  shows "(\<exists>s. snd (fetch_summary_from_google env query False) = Inr s) \<and>
    length (filter (\<lambda>e. e = Get) (fst (fetch_summary_from_google env query False))) \<le> 3 \<and>
    (blocked (get_outcome env query 0) \<and> blocked (get_outcome env query 1) \<and>
       blocked (get_outcome env query 2) \<longrightarrow>
       fetch_summary_from_google env query False = ([Get, Sleep 2, Get, Sleep 4, Get], Inr [])) \<and>
    (blocked (get_outcome env query 0) \<and> blocked (get_outcome env query 1) \<and>
       \<not> blocked (get_outcome env query 2) \<longrightarrow>
       fst (fetch_summary_from_google env query False) = [Get, Sleep 2, Get, Sleep 4, Get]) \<and>
    (blocked (get_outcome env query 0) \<and> \<not> blocked (get_outcome env query 1) \<longrightarrow>
       fst (fetch_summary_from_google env query False) = [Get, Sleep 2, Get]) \<and>
    (\<not> blocked (get_outcome env query 0) \<longrightarrow>
       fst (fetch_summary_from_google env query False) = [Get]) \<and>
    (failed (get_outcome env query 0) \<longrightarrow>
       fetch_summary_from_google env query False = ([Get], Inr [])) \<and>
    (blocked (get_outcome env query 0) \<and> failed (get_outcome env query 1) \<longrightarrow>
       fetch_summary_from_google env query False = ([Get, Sleep 2, Get], Inr [])) \<and>
    (blocked (get_outcome env query 0) \<and> blocked (get_outcome env query 1) \<and>
       failed (get_outcome env query 2) \<longrightarrow>
       fetch_summary_from_google env query False = ([Get, Sleep 2, Get, Sleep 4, Get], Inr []))"
proof -
  have f: "fetch_summary_from_google env query False = retry_loop env query 3 [0, 1, 2]"
    using assms by (simp add: fetch_summary_from_google_def upt_3)
  have 1: "\<exists>s. snd (fetch_summary_from_google env query False) = Inr s"
    unfolding f retry_loop_cases by (auto split: sum.splits step.splits)
  have 2: "length (filter (\<lambda>e. e = Get) (fst (fetch_summary_from_google env query False))) \<le> 3"
    unfolding f retry_loop_cases by auto
  have 3: "blocked (get_outcome env query 0) \<and> blocked (get_outcome env query 1) \<and>
       blocked (get_outcome env query 2) \<longrightarrow>
       fetch_summary_from_google env query False = ([Get, Sleep 2, Get, Sleep 4, Get], Inr [])"
    unfolding f retry_loop_cases by auto
  have 4: "blocked (get_outcome env query 0) \<and> blocked (get_outcome env query 1) \<and>
       \<not> blocked (get_outcome env query 2) \<longrightarrow>
       fst (fetch_summary_from_google env query False) = [Get, Sleep 2, Get, Sleep 4, Get]"
    unfolding f retry_loop_cases by auto
  have 5: "blocked (get_outcome env query 0) \<and> \<not> blocked (get_outcome env query 1) \<longrightarrow>
       fst (fetch_summary_from_google env query False) = [Get, Sleep 2, Get]"
    unfolding f retry_loop_cases by auto
  have 6: "\<not> blocked (get_outcome env query 0) \<longrightarrow>
       fst (fetch_summary_from_google env query False) = [Get]"
    unfolding f retry_loop_cases by auto
  have 7: "failed (get_outcome env query 0) \<longrightarrow>
       fetch_summary_from_google env query False = ([Get], Inr [])"
    unfolding f retry_loop_cases
    using failed_not_blocked[of "get_outcome env query 0"] attempt_failed[of env query 0] by auto
  have 8: "blocked (get_outcome env query 0) \<and> failed (get_outcome env query 1) \<longrightarrow>
       fetch_summary_from_google env query False = ([Get, Sleep 2, Get], Inr [])"
    unfolding f retry_loop_cases
    using failed_not_blocked[of "get_outcome env query 1"] attempt_failed[of env query 1] by auto
  have 9: "blocked (get_outcome env query 0) \<and> blocked (get_outcome env query 1) \<and>
       failed (get_outcome env query 2) \<longrightarrow>
       fetch_summary_from_google env query False = ([Get, Sleep 2, Get, Sleep 4, Get], Inr [])"
    unfolding f retry_loop_cases
    using failed_not_blocked[of "get_outcome env query 2"] attempt_failed[of env query 2] by auto
  from 1 2 3 4 5 6 7 8 9 show ?thesis by blast
qed

text \<open>
  The theorem at an environment whose search API answers 403 every time: three requests,
  pauses of 2 and 4 seconds, the empty string.
\<close>

theorem google_search_retry_policy_witness:
  "truthy (GOOGLE_API_KEY \<lparr>GOOGLE_API_KEY = Some ''key'', GOOGLE_CSE_ID = Some ''cx'',
       get_outcome = (\<lambda>q k. Response 403 NotJson), openai_client = True,
       chat_completion = (\<lambda>s. Inr s)\<rparr>) \<and>
   truthy (GOOGLE_CSE_ID \<lparr>GOOGLE_API_KEY = Some ''key'', GOOGLE_CSE_ID = Some ''cx'',
       get_outcome = (\<lambda>q k. Response 403 NotJson), openai_client = True,
       chat_completion = (\<lambda>s. Inr s)\<rparr>) \<and>
   fetch_summary_from_google \<lparr>GOOGLE_API_KEY = Some ''key'', GOOGLE_CSE_ID = Some ''cx'',
       get_outcome = (\<lambda>q k. Response 403 NotJson), openai_client = True,
       chat_completion = (\<lambda>s. Inr s)\<rparr> ''vitamin d study'' False
     = ([Get, Sleep 2, Get, Sleep 4, Get], Inr [])"
  using google_search_retry_policy[of "\<lparr>GOOGLE_API_KEY = Some ''key'', GOOGLE_CSE_ID = Some ''cx'',
       get_outcome = (\<lambda>q k. Response 403 NotJson), openai_client = True,
       chat_completion = (\<lambda>s. Inr s)\<rparr>" "''vitamin d study''"]
  by (simp add: truthy_def blocked_def)

section \<open>Quota and fairness of the multi-source collector\<close>

text \<open>
  \<open>total_available\<close> counts, over all feeds, the entries a source can contribute.
\<close>

definition total_available :: "(string \<Rightarrow> string option) \<Rightarrow> feed list \<Rightarrow> nat" where
  "total_available u feeds = sum_list (map (\<lambda>f. length (feed_articles u f)) feeds)"

lemma available_source: "a \<in> set (available u t es) \<Longrightarrow> source a = Some t"
  by (induction es) (auto simp: make_RSSFeed_def split: sum.splits option.splits)

lemma collect_all:
  "1 < length feeds \<Longrightarrow>
   collect_articles u ''all'' Q feeds = Inr (take (nat Q) (interleave (map (feed_articles u) feeds)))"
  by (simp add: collect_articles_def round_robin_loop_interleave)

lemma sum_list_Suc: "sum_list (map (\<lambda>x. Suc (h x)) xs) = sum_list (map h xs) + length xs"
  by (induction xs) simp_all

lemma ceiling_bound:
  assumes "0 < N" and "N * c \<le> nat Q + N" and "0 \<le> Q"
  shows "int c \<le> \<lceil>real_of_int Q / real N\<rceil> + 1"
proof -
  have "N * (c - 1) \<le> nat Q" using assms(2) by (cases c) simp_all
  then have "real N * real (c - 1) \<le> real (nat Q)" by (metis of_nat_le_iff of_nat_mult)
  then have "real (c - 1) \<le> real_of_int Q / real N"
    using assms(1,3) by (simp add: pos_le_divide_eq mult.commute)
  then have "int (c - 1) \<le> \<lceil>real_of_int Q / real N\<rceil>"
    by (metis le_of_int_ceiling of_int_le_iff of_int_of_nat_eq order_trans)
  then show ?thesis by linarith
qed

text \<open>
  What a source contributed to an output is counted by the position of the source in
  \<^verbatim>\<open>parsed_feeds\<close> (from 0), not by its title, which two sources may share.
  \<open>tag_sources\<close> pairs every entry with the position of its source; \<open>provenance\<close> is the
  round-robin order of the tagged entries, cut at the quota, so that it lists the
  collected articles (\<open>map_snd_provenance\<close>) each with the source it was taken from;
  \<open>share i\<close> counts the articles taken from source \<open>i\<close>.
\<close>

fun tag_sources :: "nat \<Rightarrow> 'a list list \<Rightarrow> (nat \<times> 'a) list list" where
  "tag_sources i [] = []"
| "tag_sources i (xs # xss) = map (Pair i) xs # tag_sources (Suc i) xss"

definition provenance :: "(string \<Rightarrow> string option) \<Rightarrow> int \<Rightarrow> feed list \<Rightarrow> (nat \<times> RSSFeed) list" where
  "provenance validator Q feeds =
     take (nat Q) (interleave (tag_sources 0 (map (feed_articles validator) feeds)))"

definition share :: "nat \<Rightarrow> (nat \<times> 'a) list \<Rightarrow> nat" where
  "share i tagged = length (filter (\<lambda>p. fst p = i) tagged)"

lemma first_entries_map: "first_entries (map (map f) xss) = map f (first_entries xss)"
  by (induction xss rule: first_entries.induct) simp_all

lemma rest_entries_map: "rest_entries (map (map f) xss) = map (map f) (rest_entries xss)"
  by (induction xss rule: rest_entries.induct) simp_all

lemma interleave_map: "interleave (map (map f) xss) = map f (interleave xss)"
proof (induction xss rule: interleave.induct)
  case (1 xss)
  show ?case
  proof (cases "first_entries xss = []")
    case True
    then show ?thesis
      by (simp add: interleave.simps[of xss] interleave.simps[of "map (map f) xss"]
            first_entries_map)
  next
    case False
    with 1 show ?thesis
      by (simp add: interleave.simps[of xss] interleave.simps[of "map (map f) xss"]
            first_entries_map rest_entries_map)
  qed
qed

lemma untag_sources: "map (map snd) (tag_sources i xss) = xss"
  by (induction xss arbitrary: i) (simp_all add: comp_def)

lemma tag_sources_range:
  "ys \<in> set (tag_sources i xss) \<Longrightarrow> p \<in> set ys \<Longrightarrow> i \<le> fst p \<and> fst p < i + length xss"
proof (induction xss arbitrary: i)
  case Nil
  then show ?case by simp
next
  case (Cons xs xss)
  from Cons.prems(1) have "ys = map (Pair i) xs \<or> ys \<in> set (tag_sources (Suc i) xss)" by simp
  then show ?case
  proof
    assume "ys = map (Pair i) xs"
    with Cons.prems(2) show ?thesis by auto
  next
    assume "ys \<in> set (tag_sources (Suc i) xss)"
    from Cons.IH[OF this Cons.prems(2)] show ?thesis by simp
  qed
qed

lemma carries_Cons_other:
  assumes "carries P xs xss" and "\<forall>y\<in>set ys. \<not> P y"
  shows "carries P xs (ys # xss)"
proof -
  from assms(1) obtain A B where xss: "xss = A @ xs # B" and p: "\<forall>x\<in>set xs. P x"
    and n: "\<forall>zs\<in>set A \<union> set B. \<forall>z\<in>set zs. \<not> P z"
    unfolding carries_def by blast
  have "ys # xss = (ys # A) @ xs # B" by (simp add: xss)
  moreover have "\<forall>zs\<in>set (ys # A) \<union> set B. \<forall>z\<in>set zs. \<not> P z" using n assms(2) by auto
  ultimately show ?thesis unfolding carries_def using p by blast
qed

lemma carries_tag:
  "j < length xss \<Longrightarrow>
   carries (\<lambda>p. fst p = i + j) (map (Pair (i + j)) (xss ! j)) (tag_sources i xss)"
proof (induction xss arbitrary: i j)
  case Nil
  then show ?case by simp
next
  case (Cons xs xss)
  show ?case
  proof (cases j)
    case 0
    have "\<forall>zs\<in>set [] \<union> set (tag_sources (Suc i) xss). \<forall>z\<in>set zs. \<not> fst z = i"
      using tag_sources_range[of _ "Suc i" xss] by fastforce
    then show ?thesis unfolding carries_def 0
      by (intro exI[of _ "[]"] exI[of _ "tag_sources (Suc i) xss"]) auto
  next
    case (Suc j')
    with Cons.prems have "j' < length xss" by simp
    from Cons.IH[OF this, of "Suc i"]
    have "carries (\<lambda>p. fst p = i + j) (map (Pair (i + j)) (xss ! j')) (tag_sources (Suc i) xss)"
      by (simp add: Suc)
    moreover have "\<forall>y\<in>set (map (Pair i) xs). \<not> fst y = i + j" using Suc by auto
    ultimately show ?thesis using Suc by (simp add: carries_Cons_other)
  qed
qed

lemma map_snd_provenance:
  "map snd (provenance u Q feeds) = take (nat Q) (interleave (map (feed_articles u) feeds))"
  by (simp add: provenance_def take_map[symmetric] interleave_map[symmetric] untag_sources)

lemma provenance_tags: "p \<in> set (provenance u Q feeds) \<Longrightarrow> fst p < length feeds"
proof -
  assume "p \<in> set (provenance u Q feeds)"
  then have "p \<in> set (interleave (tag_sources 0 (map (feed_articles u) feeds)))"
    unfolding provenance_def by (rule in_set_takeD)
  from set_interleave[OF this] obtain ys where
    "ys \<in> set (tag_sources 0 (map (feed_articles u) feeds))" "p \<in> set ys" by blast
  from tag_sources_range[OF this] show ?thesis by simp
qed

lemma total_shares:
  "\<forall>p\<in>set tagged. fst p < N \<Longrightarrow> sum_list (map (\<lambda>i. share i tagged) [0..<N]) = length tagged"
proof (induction tagged)
  case Nil
  then show ?case by (simp add: share_def)
next
  case (Cons p tagged)
  then have lt: "fst p < N" by simp
  have one: "sum_list (map (\<lambda>i. if fst p = i then 1 else 0) [0..<N]) = (1::nat)"
    using lt
  proof (induction N)
    case 0
    then show ?case by simp
  next
    case (Suc N)
    show ?case
    proof (cases "fst p = N")
      case True
      have "sum_list (map (\<lambda>i. if fst p = i then 1 else 0) [0..<N]) = (0::nat)"
        unfolding True by (simp add: sum_list_eq_0_iff)
      with True show ?thesis by simp
    next
      case False
      with Suc have "fst p < N" by simp
      from Suc.IH[OF this] False show ?thesis by simp
    qed
  qed
  have "sum_list (map (\<lambda>i. share i (p # tagged)) [0..<N]) =
        sum_list (map (\<lambda>i. (if fst p = i then 1 else 0) + share i tagged) [0..<N])"
    by (rule arg_cong[where f = sum_list]) (simp add: share_def)
  also have "\<dots> = 1 + sum_list (map (\<lambda>i. share i tagged) [0..<N])"
    using one by (simp add: sum_list_addf)
  finally show ?case using Cons by simp
qed

lemma provenance_fair:
  assumes "i < length feeds" and "j < length feeds"
  shows "share i (provenance u Q feeds) \<le> share j (provenance u Q feeds) + 1 \<or>
         share j (provenance u Q feeds) = length (feed_articles u (feeds ! j))"
proof -
  let ?L = "map (feed_articles u) feeds"
  have ci: "carries (\<lambda>p. fst p = i) (map (Pair i) (?L ! i)) (tag_sources 0 ?L)"
    using carries_tag[of i ?L 0] assms(1) by simp
  have cj: "carries (\<lambda>p. fst p = j) (map (Pair j) (?L ! j)) (tag_sources 0 ?L)"
    using carries_tag[of j ?L 0] assms(2) by simp
  from interleave_fair[OF ci cj, of "nat Q"] assms(2)
  show ?thesis by (simp add: share_def provenance_def)
qed

lemma provenance_order:
  assumes "i < length feeds"
  shows "filter (\<lambda>p. fst p = i) (provenance u Q feeds) =
         map (Pair i) (take (share i (provenance u Q feeds)) (feed_articles u (feeds ! i)))"
proof -
  let ?L = "map (feed_articles u) feeds"
  have ci: "carries (\<lambda>p. fst p = i) (map (Pair i) (?L ! i)) (tag_sources 0 ?L)"
    using carries_tag[of i ?L 0] assms by simp
  from filter_take_interleave[OF ci, of "nat Q"] assms
  show ?thesis by (simp add: share_def provenance_def take_map)
qed

lemma interleave_single: "interleave [xs] = xs"
proof (induction xs)
  case Nil
  then show ?case by (simp add: interleave.simps[of "[[]]"])
next
  case (Cons x xs)
  then show ?case by (subst interleave_unfold) simp
qed

text \<open>
  The single-feed branch has no \<^verbatim>\<open>try\<close>: it raises when it meets a rejected entry before
  the quota is reached, and returns the entries before the quota otherwise.
\<close>

lemma single_source_cases:
  "single_source u mx t i es arts =
     (if nat (mx - int i) \<le> length (available u t es) \<or> length (available u t es) = length es
      then Inr (arts @ take (nat (mx - int i)) (available u t es))
      else Inl ValidationError)"
proof (induction es arbitrary: i arts)
  case Nil
  then show ?case by simp
next
  case (Cons e es)
  show ?case
  proof (cases "mx \<le> int i")
    case True
    then show ?thesis by simp
  next
    case False
    then have pos: "nat (mx - int i) = Suc (nat (mx - int (Suc i)))" by simp
    show ?thesis
    proof (cases "make_RSSFeed u t e")
      case (Inl err)
      then have "err = ValidationError" by (simp add: make_RSSFeed_def split: option.splits)
      with Inl False pos show ?thesis by simp
    next
      case (Inr a)
      with False pos Cons.IH[of "Suc i" "arts @ [a]"] show ?thesis by simp
    qed
  qed
qed

lemma collect_cases:
  "collect_articles u ''all'' Q feeds =
     (if \<exists>es t. feeds = [(es, t)] \<and> length (available u t es) < nat Q \<and>
                 length (available u t es) < length es
      then Inl ValidationError
      else Inr (take (nat Q) (interleave (map (feed_articles u) feeds))))"
proof (cases "1 < length feeds")
  case True
  then have "\<not> (\<exists>es t. feeds = [(es, t)] \<and> length (available u t es) < nat Q \<and>
                 length (available u t es) < length es)" by auto
  with True show ?thesis by (simp add: collect_all)
next
  case False
  show ?thesis
  proof (cases feeds)
    case Nil
    then show ?thesis by (simp add: collect_articles_def interleave.simps[of "[]"])
  next
    case (Cons f rest)
    with False have rest: "rest = []" by simp
    obtain es t where f: "f = (es, t)" by (cases f)
    have "length (available u t es) \<le> length es"
      by (induction es) (auto split: sum.splits)
    then show ?thesis
      by (auto simp add: collect_articles_def Cons rest f interleave_single feed_articles_def
            single_source_cases[of u Q t 0 es "[]"])
  qed
qed

lemma collect_returns:
  assumes "Q \<le> int (total_available u feeds)"
  shows "collect_articles u ''all'' Q feeds =
           Inr (take (nat Q) (interleave (map (feed_articles u) feeds)))"
proof -
  have "\<not> (\<exists>es t. feeds = [(es, t)] \<and> length (available u t es) < nat Q \<and>
                 length (available u t es) < length es)"
    using assms by (auto simp: total_available_def feed_articles_def)
  then show ?thesis by (simp add: collect_cases)
qed

text \<open>
  Claim C1, as amended. For every run of \<open>fetch_rss_feeds\<close> with source \<open>all\<close>, with any
  number \<open>N\<close> of live sources and a quota \<open>0 \<le> Q\<close> that does not exceed the number of
  available entries (for each source, the entries before the first one that fails
  validation), the collector returns exactly \<open>Q\<close> articles, those of \<open>provenance\<close>; a
  source contributes more than \<open>\<lceil>Q/N\<rceil> + 1\<close> of them only if another source has
  contributed all its available entries; and a source contributes at most one article
  more than any other source that has not contributed all its available entries.
\<close>

theorem round_robin_quota_and_fairness:
  assumes "feeds = parse_feeds parser (select_urls ''all'' custom_url)"
    and "0 \<le> Q"
    and "Q \<le> int (total_available validator feeds)"
  shows "\<exists>out. fetch_rss_feeds parser validator ''all'' custom_url Q = Inr out \<and>
           int (length out) = Q \<and>
           out = map snd (provenance validator Q feeds) \<and>
           (\<forall>i<length feeds.
              int (share i (provenance validator Q feeds))
                \<le> \<lceil>real_of_int Q / real (length feeds)\<rceil> + 1 \<or>
              (\<exists>j<length feeds. j \<noteq> i \<and>
                 share j (provenance validator Q feeds) =
                   length (feed_articles validator (feeds ! j)))) \<and>
           (\<forall>i<length feeds. \<forall>j<length feeds.
              share i (provenance validator Q feeds)
                \<le> share j (provenance validator Q feeds) + 1 \<or>
              share j (provenance validator Q feeds) =
                length (feed_articles validator (feeds ! j)))"
proof -
  let ?L = "map (feed_articles validator) feeds"
  let ?out = "take (nat Q) (interleave ?L)"
  let ?prov = "provenance validator Q feeds"
  have fetch: "fetch_rss_feeds parser validator ''all'' custom_url Q = Inr ?out"
    using assms(1) collect_returns[OF assms(3)] by (simp add: fetch_rss_feeds_def)
  have "length (interleave ?L) = total_available validator feeds"
    by (simp add: length_interleave total_available_def comp_def)
  then have len: "length ?out = nat Q" using assms(3) by simp
  have out: "?out = map snd ?prov" by (simp add: map_snd_provenance)
  have plen: "length ?prov = nat Q" using len out by (metis length_map)
  have fair: "int (share i ?prov) \<le> \<lceil>real_of_int Q / real (length feeds)\<rceil> + 1 \<or>
       (\<exists>j<length feeds. j \<noteq> i \<and> share j ?prov = length (feed_articles validator (feeds ! j)))"
    if i: "i < length feeds" for i
  proof (cases "\<exists>j<length feeds. j \<noteq> i \<and> share j ?prov = length (feed_articles validator (feeds ! j))")
    case True
    then show ?thesis by simp
  next
    case False
    have each: "share i ?prov \<le> share j ?prov + 1" if j: "j \<in> set [0..<length feeds]" for j
    proof (cases "j = i")
      case True
      then show ?thesis by simp
    next
      case ne: False
      from j have jl: "j < length feeds" by simp
      with False ne have "share j ?prov \<noteq> length (feed_articles validator (feeds ! j))" by blast
      with provenance_fair[OF i jl, of validator Q] show ?thesis by simp
    qed
    have "length feeds * share i ?prov =
          sum_list (map (\<lambda>j. share i ?prov) [0..<length feeds])"
      by (simp add: sum_list_triv)
    also have "\<dots> \<le> sum_list (map (\<lambda>j. share j ?prov + 1) [0..<length feeds])"
      by (rule sum_list_mono) (use each in blast)
    also have "\<dots> = sum_list (map (\<lambda>j. share j ?prov) [0..<length feeds]) + length feeds"
      by (simp add: sum_list_Suc)
    also have "\<dots> = length ?prov + length feeds"
    proof -
      have "\<forall>p\<in>set ?prov. fst p < length feeds" using provenance_tags by blast
      from total_shares[OF this] show ?thesis by simp
    qed
    finally have "length feeds * share i ?prov \<le> nat Q + length feeds"
      using plen by simp
    moreover have "0 < length feeds" using i by linarith
    ultimately have "int (share i ?prov) \<le> \<lceil>real_of_int Q / real (length feeds)\<rceil> + 1"
      using assms(2) by (intro ceiling_bound)
    then show ?thesis by simp
  qed
  have pair: "\<forall>i<length feeds. \<forall>j<length feeds.
      share i ?prov \<le> share j ?prov + 1 \<or>
      share j ?prov = length (feed_articles validator (feeds ! j))"
    using provenance_fair by blast
  show ?thesis using fetch len out fair pair assms(2) by simp
qed

subsection \<open>Example feeds\<close>

text \<open>
  A validator that accepts the strings starting with \<open>http://\<close> or \<open>https://\<close> and
  leaves them as they are, entries with a title and a link, and a run in which two of the
  feeds of \<open>feed_map\<close> answer, with three and two entries.
\<close>

definition example_validator :: "string \<Rightarrow> string option" where
  "example_validator s =
     (if take 7 s = ''http://'' \<or> take 8 s = ''https://'' then Some s else None)"

definition example_entry :: "string \<Rightarrow> string \<Rightarrow> raw_entry" where
  "example_entry t l =
     \<lparr>entry_title = Some t, entry_link = Some l, entry_published = None, entry_summary = None\<rparr>"

definition example_article :: "string \<Rightarrow> string \<Rightarrow> string \<Rightarrow> RSSFeed" where
  "example_article t l s =
     \<lparr>title = t, link = l, source = Some s, published = None, summary = None\<rparr>"

definition two_feeds :: "string \<Rightarrow> fetch_result" where
  "two_feeds feed_url =
    (if feed_url = ''https://www.menshealth.com/rss/all.xml/'' then
       Parsed [example_entry ''A1'' ''https://a.example/1'',
               example_entry ''A2'' ''https://a.example/2'',
               example_entry ''A3'' ''https://a.example/3''] (Some ''Mens Health'')
     else if feed_url = ''https://blog.myfitnesspal.com/feed'' then
       Parsed [example_entry ''B1'' ''https://b.example/1'',
               example_entry ''B2'' ''https://b.example/2''] (Some ''MyFitnessPal'')
     else ParseFailed)"

lemma two_feeds_parsed:
  "parse_feeds two_feeds (select_urls ''all'' None) =
     [([example_entry ''A1'' ''https://a.example/1'',
        example_entry ''A2'' ''https://a.example/2'',
        example_entry ''A3'' ''https://a.example/3''], ''Mens Health''),
      ([example_entry ''B1'' ''https://b.example/1'',
        example_entry ''B2'' ''https://b.example/2''], ''MyFitnessPal'')]"
  by (simp add: select_urls_def feed_map_def List.map_filter_def two_feeds_def)

lemma example_make:
  "make_RSSFeed example_validator s (example_entry t (''https://'' @ l)) =
     Inr (example_article t (''https://'' @ l) s)"
  by (simp add: make_RSSFeed_def example_validator_def example_entry_def example_article_def)

lemma example_make_simp:
  "make_RSSFeed example_validator s
     (example_entry t (CHR ''h'' # CHR ''t'' # CHR ''t'' # CHR ''p'' # CHR ''s'' # CHR '':'' #
        CHR ''/'' # CHR ''/'' # l)) =
     Inr (example_article t (CHR ''h'' # CHR ''t'' # CHR ''t'' # CHR ''p'' # CHR ''s'' # CHR '':'' #
        CHR ''/'' # CHR ''/'' # l) s)"
  using example_make[of s t l] by simp

lemma two_feeds_total:
  "total_available example_validator (parse_feeds two_feeds (select_urls ''all'' None)) = 5"
  using example_make[of _ _ "''a.example/1''"] example_make[of _ _ "''a.example/2''"]
    example_make[of _ _ "''a.example/3''"] example_make[of _ _ "''b.example/1''"]
    example_make[of _ _ "''b.example/2''"]
  by (simp add: two_feeds_parsed total_available_def feed_articles_def)

lemma two_feeds_provenance:
  "provenance example_validator 4 (parse_feeds two_feeds (select_urls ''all'' None)) =
     [(0, example_article ''A1'' ''https://a.example/1'' ''Mens Health''),
      (1, example_article ''B1'' ''https://b.example/1'' ''MyFitnessPal''),
      (0, example_article ''A2'' ''https://a.example/2'' ''Mens Health''),
      (1, example_article ''B2'' ''https://b.example/2'' ''MyFitnessPal'')]"
  using example_make[of _ _ "''a.example/1''"] example_make[of _ _ "''a.example/2''"]
    example_make[of _ _ "''a.example/3''"] example_make[of _ _ "''b.example/1''"]
    example_make[of _ _ "''b.example/2''"]
  by (simp add: two_feeds_parsed provenance_def feed_articles_def interleave.simps)

text \<open>
  The theorem at the two example feeds with quota 4: each of the two sources contributes
  two articles.
\<close>

theorem round_robin_quota_and_fairness_witness:
  "(0::int) \<le> 4 \<and>
   4 \<le> int (total_available example_validator (parse_feeds two_feeds (select_urls ''all'' None))) \<and>
   length (parse_feeds two_feeds (select_urls ''all'' None)) = 2 \<and>
   share 0 (provenance example_validator 4 (parse_feeds two_feeds (select_urls ''all'' None))) = 2 \<and>
   share 1 (provenance example_validator 4 (parse_feeds two_feeds (select_urls ''all'' None))) = 2 \<and>
   (\<exists>out. fetch_rss_feeds two_feeds example_validator ''all'' None 4 = Inr out \<and>
      int (length out) = 4 \<and>
      out = map snd (provenance example_validator 4
                       (parse_feeds two_feeds (select_urls ''all'' None))) \<and>
      (\<forall>i<length (parse_feeds two_feeds (select_urls ''all'' None)).
         int (share i (provenance example_validator 4
                         (parse_feeds two_feeds (select_urls ''all'' None))))
           \<le> \<lceil>real_of_int 4 / real (length (parse_feeds two_feeds (select_urls ''all'' None)))\<rceil> + 1 \<or>
         (\<exists>j<length (parse_feeds two_feeds (select_urls ''all'' None)). j \<noteq> i \<and>
            share j (provenance example_validator 4
                       (parse_feeds two_feeds (select_urls ''all'' None))) =
              length (feed_articles example_validator
                        (parse_feeds two_feeds (select_urls ''all'' None) ! j)))) \<and>
      (\<forall>i<length (parse_feeds two_feeds (select_urls ''all'' None)).
       \<forall>j<length (parse_feeds two_feeds (select_urls ''all'' None)).
         share i (provenance example_validator 4
                    (parse_feeds two_feeds (select_urls ''all'' None)))
           \<le> share j (provenance example_validator 4
                        (parse_feeds two_feeds (select_urls ''all'' None))) + 1 \<or>
         share j (provenance example_validator 4
                    (parse_feeds two_feeds (select_urls ''all'' None))) =
           length (feed_articles example_validator
                     (parse_feeds two_feeds (select_urls ''all'' None) ! j))))"
proof -
  have h2: "(0::int) \<le> 4" by simp
  have h3: "4 \<le> int (total_available example_validator (parse_feeds two_feeds (select_urls ''all'' None)))"
    by (simp add: two_feeds_total)
  have n: "length (parse_feeds two_feeds (select_urls ''all'' None)) = 2"
    by (simp add: two_feeds_parsed)
  have s0: "share 0 (provenance example_validator 4
      (parse_feeds two_feeds (select_urls ''all'' None))) = 2"
    by (simp add: two_feeds_provenance share_def)
  have s1: "share 1 (provenance example_validator 4
      (parse_feeds two_feeds (select_urls ''all'' None))) = 2"
    by (simp add: two_feeds_provenance share_def)
  from round_robin_quota_and_fairness[OF refl h2 h3] h2 h3 n s0 s1 show ?thesis by blast
qed

text \<open>
  Claim C1 as stated fails when a feed holds an entry that fails validation: the loop
  removes the feed with the entries behind the bad one. Here two sources are live with
  four entries, three of them well-formed, and the quota is 2; the collector returns one
  article.
\<close>

definition accepted :: "(string \<Rightarrow> string option) \<Rightarrow> raw_entry \<Rightarrow> bool" where
  "accepted validator entry =
     (validator (case entry_link entry of None \<Rightarrow> [] | Some l \<Rightarrow> l) \<noteq> None)"

definition feeds_with_bad_entry :: "string \<Rightarrow> fetch_result" where
  "feeds_with_bad_entry feed_url =
    (if feed_url = ''https://www.menshealth.com/rss/all.xml/'' then
       Parsed [\<lparr>entry_title = Some ''A1'', entry_link = None, entry_published = None,
                 entry_summary = None\<rparr>,
               example_entry ''A2'' ''https://a.example/2'',
               example_entry ''A3'' ''https://a.example/3''] (Some ''Mens Health'')
     else if feed_url = ''https://blog.myfitnesspal.com/feed'' then
       Parsed [example_entry ''B1'' ''https://b.example/1''] (Some ''MyFitnessPal'')
     else ParseFailed)"

lemma feeds_with_bad_entry_parsed:
  "parse_feeds feeds_with_bad_entry (select_urls ''all'' None) =
     [([\<lparr>entry_title = Some ''A1'', entry_link = None, entry_published = None,
          entry_summary = None\<rparr>,
        example_entry ''A2'' ''https://a.example/2'',
        example_entry ''A3'' ''https://a.example/3''], ''Mens Health''),
      ([example_entry ''B1'' ''https://b.example/1''], ''MyFitnessPal'')]"
  by (simp add: select_urls_def feed_map_def List.map_filter_def feeds_with_bad_entry_def)

lemma example_accepted: "accepted example_validator (example_entry t (''https://'' @ l))"
  by (simp add: accepted_def example_validator_def example_entry_def)

theorem quota_not_reached_counterexample:
  "length (parse_feeds feeds_with_bad_entry (select_urls ''all'' None)) = 2 \<and>
   length (concat (map fst (parse_feeds feeds_with_bad_entry (select_urls ''all'' None)))) = 4 \<and>
   length (filter (accepted example_validator)
     (concat (map fst (parse_feeds feeds_with_bad_entry (select_urls ''all'' None))))) = 3 \<and>
   fetch_rss_feeds feeds_with_bad_entry example_validator ''all'' None 2 =
     Inr [example_article ''B1'' ''https://b.example/1'' ''MyFitnessPal'']"
proof -
  have bad: "make_RSSFeed example_validator ''Mens Health''
      \<lparr>entry_title = Some ''A1'', entry_link = None, entry_published = None,
        entry_summary = None\<rparr> = Inl ValidationError"
    by (simp add: make_RSSFeed_def example_validator_def)
  have nacc: "\<not> accepted example_validator
      \<lparr>entry_title = Some ''A1'', entry_link = None, entry_published = None,
        entry_summary = None\<rparr>"
    by (simp add: accepted_def example_validator_def)
  have "fetch_rss_feeds feeds_with_bad_entry example_validator ''all'' None 2 =
     Inr [example_article ''B1'' ''https://b.example/1'' ''MyFitnessPal'']"
    using bad example_make[of _ _ "''b.example/1''"]
    by (simp add: fetch_rss_feeds_def feeds_with_bad_entry_parsed collect_all feed_articles_def
          interleave.simps)
  then show ?thesis
    using nacc example_accepted[of _ "''a.example/2''"] example_accepted[of _ "''a.example/3''"]
      example_accepted[of _ "''b.example/1''"]
    by (simp add: feeds_with_bad_entry_parsed)
qed

section \<open>The order of the collected articles\<close>

lemma two_entries: "2 \<le> length es \<Longrightarrow> \<exists>x y rest. es = x # y # rest"
  by (cases es; cases "tl es") auto

lemma available_source_hd:
  "feed_articles u f = a # rest \<Longrightarrow> source a = Some (snd f) \<and> (\<forall>b\<in>set rest. source b = Some (snd f))"
  using available_source[of _ u "snd f" "fst f"] by (simp add: feed_articles_def)

lemma two_available:
  assumes "2 \<le> length (feed_articles u f)"
  shows "\<exists>a b rest. feed_articles u f = a # b # rest \<and>
           source a = Some (snd f) \<and> source b = Some (snd f)"
proof -
  from two_entries[OF assms] obtain a b rest where e: "feed_articles u f = a # b # rest" by blast
  from available_source_hd[OF e] e show ?thesis by simp
qed

lemma scenario_available:
  assumes "length (feed_articles u f1) = 5" and "length (feed_articles u f2) = 2"
    and "length (feed_articles u f3) = 10"
  shows "map fst (provenance u 6 [f1, f2, f3]) = [0, 1, 2, 0, 1, 2] \<and>
         map (source \<circ> snd) (provenance u 6 [f1, f2, f3]) =
           [Some (snd f1), Some (snd f2), Some (snd f3),
            Some (snd f1), Some (snd f2), Some (snd f3)]"
proof -
  from assms two_available[of u f1] obtain a1 b1 r1 where
    1: "feed_articles u f1 = a1 # b1 # r1" "source a1 = Some (snd f1)" "source b1 = Some (snd f1)"
    by auto
  from assms two_available[of u f2] obtain a2 b2 r2 where
    2: "feed_articles u f2 = a2 # b2 # r2" "source a2 = Some (snd f2)" "source b2 = Some (snd f2)"
    by auto
  from assms two_available[of u f3] obtain a3 b3 r3 where
    3: "feed_articles u f3 = a3 # b3 # r3" "source a3 = Some (snd f3)" "source b3 = Some (snd f3)"
    by auto
  have "take 6 (interleave [(0::nat, a1) # (0, b1) # map (Pair 0) r1,
                            (Suc 0, a2) # (Suc 0, b2) # map (Pair (Suc 0)) r2,
                            (2, a3) # (2, b3) # map (Pair 2) r3]) =
        [(0, a1), (Suc 0, a2), (2, a3), (0, b1), (Suc 0, b2), (2, b3)]"
    by (subst interleave_unfold, simp, subst interleave_unfold, simp)
  then have "provenance u 6 [f1, f2, f3] =
        [(0, a1), (Suc 0, a2), (2, a3), (0, b1), (Suc 0, b2), (2, b3)]"
    using 1(1) 2(1) 3(1) by (simp add: provenance_def numeral_2_eq_2)
  then show ?thesis using 1 2 3 by simp
qed

text \<open>
  Claim C5, as amended. The collector visits the sources cyclically in the order of the
  configuration and takes from each source its available entries (those before its first
  entry that fails validation; at such an entry the source leaves the cycle) in the order
  of the feed: the output is the round-robin order of the available entries cut at the
  quota, unless a single live source meets a rejected entry before the quota, where the
  call raises; the articles taken from one source are a prefix of its available entries,
  in their order; and for three sources with 5, 2 and 10 available entries and quota 6
  the output comes from the sources at positions 0, 1, 2, 0, 1, 2 (the spec's sources
  1, 2, 3, 1, 2, 3).
\<close>

theorem round_robin_order:
  assumes "feeds = parse_feeds parser (select_urls ''all'' custom_url)"
  shows "(fetch_rss_feeds parser validator ''all'' custom_url Q =
            Inr (map snd (provenance validator Q feeds)) \<or>
          (\<exists>es t. feeds = [(es, t)] \<and>
             length (available validator t es) < nat Q \<and>
             length (available validator t es) < length es \<and>
             fetch_rss_feeds parser validator ''all'' custom_url Q = Inl ValidationError)) \<and>
         map snd (provenance validator Q feeds) =
           take (nat Q) (interleave (map (feed_articles validator) feeds)) \<and>
         (\<forall>i<length feeds.
            filter (\<lambda>p. fst p = i) (provenance validator Q feeds) =
              map (Pair i) (take (share i (provenance validator Q feeds))
                             (feed_articles validator (feeds ! i)))) \<and>
         (\<forall>f1 f2 f3.
            feeds = [f1, f2, f3] \<and>
            length (feed_articles validator f1) = 5 \<and>
            length (feed_articles validator f2) = 2 \<and>
            length (feed_articles validator f3) = 10 \<longrightarrow>
            map fst (provenance validator 6 feeds) = [0, 1, 2, 0, 1, 2] \<and>
            (\<exists>out. fetch_rss_feeds parser validator ''all'' custom_url 6 = Inr out \<and>
               out = map snd (provenance validator 6 feeds) \<and>
               map source out = [Some (snd f1), Some (snd f2), Some (snd f3),
                                 Some (snd f1), Some (snd f2), Some (snd f3)]))"
proof -
  have fetch: "\<And>q. fetch_rss_feeds parser validator ''all'' custom_url q =
      collect_articles validator ''all'' q feeds"
    using assms by (simp add: fetch_rss_feeds_def)
  have a: "fetch_rss_feeds parser validator ''all'' custom_url Q =
            Inr (map snd (provenance validator Q feeds)) \<or>
          (\<exists>es t. feeds = [(es, t)] \<and>
             length (available validator t es) < nat Q \<and>
             length (available validator t es) < length es \<and>
             fetch_rss_feeds parser validator ''all'' custom_url Q = Inl ValidationError)"
  proof (cases "\<exists>es t. feeds = [(es, t)] \<and> length (available validator t es) < nat Q \<and>
                 length (available validator t es) < length es")
    case True
    then have "collect_articles validator ''all'' Q feeds = Inl ValidationError"
      by (subst collect_cases) simp
    with True show ?thesis by (auto simp: fetch)
  next
    case False
    then have "collect_articles validator ''all'' Q feeds =
        Inr (take (nat Q) (interleave (map (feed_articles validator) feeds)))"
      by (subst collect_cases) simp
    then show ?thesis by (simp add: fetch map_snd_provenance)
  qed
  have b: "map snd (provenance validator Q feeds) =
           take (nat Q) (interleave (map (feed_articles validator) feeds))"
    by (rule map_snd_provenance)
  have c: "\<forall>i<length feeds.
            filter (\<lambda>p. fst p = i) (provenance validator Q feeds) =
              map (Pair i) (take (share i (provenance validator Q feeds))
                             (feed_articles validator (feeds ! i)))"
    using provenance_order by blast
  have d: "\<forall>f1 f2 f3.
            feeds = [f1, f2, f3] \<and>
            length (feed_articles validator f1) = 5 \<and>
            length (feed_articles validator f2) = 2 \<and>
            length (feed_articles validator f3) = 10 \<longrightarrow>
            map fst (provenance validator 6 feeds) = [0, 1, 2, 0, 1, 2] \<and>
            (\<exists>out. fetch_rss_feeds parser validator ''all'' custom_url 6 = Inr out \<and>
               out = map snd (provenance validator 6 feeds) \<and>
               map source out = [Some (snd f1), Some (snd f2), Some (snd f3),
                                 Some (snd f1), Some (snd f2), Some (snd f3)])"
  proof (intro allI impI, elim conjE)
    fix f1 f2 f3
    assume fs: "feeds = [f1, f2, f3]" and l: "length (feed_articles validator f1) = 5"
      "length (feed_articles validator f2) = 2" "length (feed_articles validator f3) = 10"
    from scenario_available[OF l] have
      p: "map fst (provenance validator 6 feeds) = [0, 1, 2, 0, 1, 2]" and
      s: "map (source \<circ> snd) (provenance validator 6 feeds) =
           [Some (snd f1), Some (snd f2), Some (snd f3),
            Some (snd f1), Some (snd f2), Some (snd f3)]"
      by (simp_all add: fs)
    have "collect_articles validator ''all'' 6 feeds =
        Inr (take (nat 6) (interleave (map (feed_articles validator) feeds)))"
      by (simp add: collect_all fs)
    then have "fetch_rss_feeds parser validator ''all'' custom_url 6 =
        Inr (map snd (provenance validator 6 feeds))"
      by (simp add: fetch map_snd_provenance)
    with p s show "map fst (provenance validator 6 feeds) = [0, 1, 2, 0, 1, 2] \<and>
            (\<exists>out. fetch_rss_feeds parser validator ''all'' custom_url 6 = Inr out \<and>
               out = map snd (provenance validator 6 feeds) \<and>
               map source out = [Some (snd f1), Some (snd f2), Some (snd f3),
                                 Some (snd f1), Some (snd f2), Some (snd f3)])"
      by simp
  qed
  from a b c d show ?thesis by blast
qed

text \<open>The scenario: three feeds that answer with 5, 2 and 10 entries.\<close>

definition three_feeds :: "string \<Rightarrow> fetch_result" where
  "three_feeds feed_url =
    (if feed_url = ''https://www.menshealth.com/rss/all.xml/'' then
       Parsed [example_entry ''A1'' ''https://a.example/1'',
               example_entry ''A2'' ''https://a.example/2'',
               example_entry ''A3'' ''https://a.example/3'',
               example_entry ''A4'' ''https://a.example/4'',
               example_entry ''A5'' ''https://a.example/5''] (Some ''Mens Health'')
     else if feed_url = ''https://blog.myfitnesspal.com/feed'' then
       Parsed [example_entry ''B1'' ''https://b.example/1'',
               example_entry ''B2'' ''https://b.example/2''] (Some ''MyFitnessPal'')
     else if feed_url = ''https://www.bornfitness.com/feed/'' then
       Parsed [example_entry ''C1'' ''https://c.example/1'',
               example_entry ''C2'' ''https://c.example/2'',
               example_entry ''C3'' ''https://c.example/3'',
               example_entry ''C4'' ''https://c.example/4'',
               example_entry ''C5'' ''https://c.example/5'',
               example_entry ''C6'' ''https://c.example/6'',
               example_entry ''C7'' ''https://c.example/7'',
               example_entry ''C8'' ''https://c.example/8'',
               example_entry ''C9'' ''https://c.example/9'',
               example_entry ''C10'' ''https://c.example/10''] (Some ''Born Fitness'')
     else ParseFailed)"

lemma three_feeds_parsed:
  "parse_feeds three_feeds (select_urls ''all'' None) =
     [([example_entry ''A1'' ''https://a.example/1'',
        example_entry ''A2'' ''https://a.example/2'',
        example_entry ''A3'' ''https://a.example/3'',
        example_entry ''A4'' ''https://a.example/4'',
        example_entry ''A5'' ''https://a.example/5''], ''Mens Health''),
      ([example_entry ''B1'' ''https://b.example/1'',
        example_entry ''B2'' ''https://b.example/2''], ''MyFitnessPal''),
      ([example_entry ''C1'' ''https://c.example/1'',
        example_entry ''C2'' ''https://c.example/2'',
        example_entry ''C3'' ''https://c.example/3'',
        example_entry ''C4'' ''https://c.example/4'',
        example_entry ''C5'' ''https://c.example/5'',
        example_entry ''C6'' ''https://c.example/6'',
        example_entry ''C7'' ''https://c.example/7'',
        example_entry ''C8'' ''https://c.example/8'',
        example_entry ''C9'' ''https://c.example/9'',
        example_entry ''C10'' ''https://c.example/10''], ''Born Fitness'')]"
  by (simp add: select_urls_def feed_map_def List.map_filter_def three_feeds_def)

lemma three_feeds_available:
  "map (\<lambda>f. length (feed_articles example_validator f))
     (parse_feeds three_feeds (select_urls ''all'' None)) = [5, 2, 10]"
  by (simp add: three_feeds_parsed feed_articles_def example_make_simp)

text \<open>
  The theorem at the three feeds with quota 6, and the source order for the second
  source.
\<close>

theorem round_robin_order_witness:
  "length (parse_feeds three_feeds (select_urls ''all'' None)) = 3 \<and>
   map (\<lambda>f. length (feed_articles example_validator f))
     (parse_feeds three_feeds (select_urls ''all'' None)) = [5, 2, 10] \<and>
   fetch_rss_feeds three_feeds example_validator ''all'' None 6 =
     Inr (map snd (provenance example_validator 6
                     (parse_feeds three_feeds (select_urls ''all'' None)))) \<and>
   map fst (provenance example_validator 6
              (parse_feeds three_feeds (select_urls ''all'' None))) = [0, 1, 2, 0, 1, 2] \<and>
   filter (\<lambda>p. fst p = 1)
     (provenance example_validator 6 (parse_feeds three_feeds (select_urls ''all'' None))) =
     map (Pair 1)
       (take (share 1 (provenance example_validator 6
                         (parse_feeds three_feeds (select_urls ''all'' None))))
          (feed_articles example_validator
             (parse_feeds three_feeds (select_urls ''all'' None) ! 1))) \<and>
   (\<exists>out. fetch_rss_feeds three_feeds example_validator ''all'' None 6 = Inr out \<and>
      map source out = [Some ''Mens Health'', Some ''MyFitnessPal'', Some ''Born Fitness'',
                        Some ''Mens Health'', Some ''MyFitnessPal'', Some ''Born Fitness''])"
proof -
  let ?feeds = "parse_feeds three_feeds (select_urls ''all'' None)"
  note order = round_robin_order[OF refl, where parser = three_feeds and custom_url = None
      and validator = example_validator and Q = 6]
  have n: "length ?feeds = 3" by (simp add: three_feeds_parsed)
  have av: "map (\<lambda>f. length (feed_articles example_validator f)) ?feeds = [5, 2, 10]"
    by (rule three_feeds_available)
  obtain f1 f2 f3 where fs: "?feeds = [f1, f2, f3]"
    and t: "snd f1 = ''Mens Health''" "snd f2 = ''MyFitnessPal''" "snd f3 = ''Born Fitness''"
    by (simp add: three_feeds_parsed)
  from av have l: "length (feed_articles example_validator f1) = 5"
    "length (feed_articles example_validator f2) = 2"
    "length (feed_articles example_validator f3) = 10"
    by (simp_all add: fs)
  from order n have r: "fetch_rss_feeds three_feeds example_validator ''all'' None 6 =
     Inr (map snd (provenance example_validator 6 ?feeds))"
    by auto
  from order n have o: "filter (\<lambda>p. fst p = 1) (provenance example_validator 6 ?feeds) =
     map (Pair 1) (take (share 1 (provenance example_validator 6 ?feeds))
          (feed_articles example_validator (?feeds ! 1)))"
    by simp
  from order fs l t have s: "map fst (provenance example_validator 6 ?feeds) = [0, 1, 2, 0, 1, 2] \<and>
    (\<exists>out. fetch_rss_feeds three_feeds example_validator ''all'' None 6 = Inr out \<and>
      map source out = [Some ''Mens Health'', Some ''MyFitnessPal'', Some ''Born Fitness'',
                        Some ''Mens Health'', Some ''MyFitnessPal'', Some ''Born Fitness''])"
    by (metis (no_types, lifting))
  from n av r o s show ?thesis by blast
qed

text \<open>
  Claim C5 as stated fails when an entry fails validation. Here three sources hold 5, 2
  and 10 entries and the quota is 6, but the first entry of the second source has no
  link: the loop removes the second source at that entry, and the output comes from the
  sources 1, 3, 1, 3, 1, 3.
\<close>

definition second_feed_starts_badly :: "string \<Rightarrow> fetch_result" where
  "second_feed_starts_badly feed_url =
    (if feed_url = ''https://blog.myfitnesspal.com/feed'' then
       Parsed [\<lparr>entry_title = Some ''B1'', entry_link = None, entry_published = None,
                 entry_summary = None\<rparr>,
               example_entry ''B2'' ''https://b.example/2''] (Some ''MyFitnessPal'')
     else three_feeds feed_url)"

lemma second_feed_starts_badly_parsed:
  "parse_feeds second_feed_starts_badly (select_urls ''all'' None) =
     [([example_entry ''A1'' ''https://a.example/1'',
        example_entry ''A2'' ''https://a.example/2'',
        example_entry ''A3'' ''https://a.example/3'',
        example_entry ''A4'' ''https://a.example/4'',
        example_entry ''A5'' ''https://a.example/5''], ''Mens Health''),
      ([\<lparr>entry_title = Some ''B1'', entry_link = None, entry_published = None,
          entry_summary = None\<rparr>,
        example_entry ''B2'' ''https://b.example/2''], ''MyFitnessPal''),
      ([example_entry ''C1'' ''https://c.example/1'',
        example_entry ''C2'' ''https://c.example/2'',
        example_entry ''C3'' ''https://c.example/3'',
        example_entry ''C4'' ''https://c.example/4'',
        example_entry ''C5'' ''https://c.example/5'',
        example_entry ''C6'' ''https://c.example/6'',
        example_entry ''C7'' ''https://c.example/7'',
        example_entry ''C8'' ''https://c.example/8'',
        example_entry ''C9'' ''https://c.example/9'',
        example_entry ''C10'' ''https://c.example/10''], ''Born Fitness'')]"
  by (simp add: select_urls_def feed_map_def List.map_filter_def second_feed_starts_badly_def
        three_feeds_def)

theorem second_source_skipped_counterexample:
  "map (length \<circ> fst) (parse_feeds second_feed_starts_badly (select_urls ''all'' None)) = [5, 2, 10] \<and>
   fetch_rss_feeds second_feed_starts_badly example_validator ''all'' None 6 =
     Inr [example_article ''A1'' ''https://a.example/1'' ''Mens Health'',
          example_article ''C1'' ''https://c.example/1'' ''Born Fitness'',
          example_article ''A2'' ''https://a.example/2'' ''Mens Health'',
          example_article ''C2'' ''https://c.example/2'' ''Born Fitness'',
          example_article ''A3'' ''https://a.example/3'' ''Mens Health'',
          example_article ''C3'' ''https://c.example/3'' ''Born Fitness''] \<and>
   map source
     [example_article ''A1'' ''https://a.example/1'' ''Mens Health'',
      example_article ''C1'' ''https://c.example/1'' ''Born Fitness'',
      example_article ''A2'' ''https://a.example/2'' ''Mens Health'',
      example_article ''C2'' ''https://c.example/2'' ''Born Fitness'',
      example_article ''A3'' ''https://a.example/3'' ''Mens Health'',
      example_article ''C3'' ''https://c.example/3'' ''Born Fitness''] =
     [Some ''Mens Health'', Some ''Born Fitness'', Some ''Mens Health'',
      Some ''Born Fitness'', Some ''Mens Health'', Some ''Born Fitness'']"
proof -
  have bad: "make_RSSFeed example_validator ''MyFitnessPal''
      \<lparr>entry_title = Some ''B1'', entry_link = None, entry_published = None,
        entry_summary = None\<rparr> = Inl ValidationError"
    by (simp add: make_RSSFeed_def example_validator_def)
  have a: "map (length \<circ> fst) (parse_feeds second_feed_starts_badly (select_urls ''all'' None)) = [5, 2, 10]"
    by (simp add: second_feed_starts_badly_parsed)
  have b: "fetch_rss_feeds second_feed_starts_badly example_validator ''all'' None 6 =
     Inr [example_article ''A1'' ''https://a.example/1'' ''Mens Health'',
          example_article ''C1'' ''https://c.example/1'' ''Born Fitness'',
          example_article ''A2'' ''https://a.example/2'' ''Mens Health'',
          example_article ''C2'' ''https://c.example/2'' ''Born Fitness'',
          example_article ''A3'' ''https://a.example/3'' ''Mens Health'',
          example_article ''C3'' ''https://c.example/3'' ''Born Fitness'']"
    using bad
    by (simp add: fetch_rss_feeds_def second_feed_starts_badly_parsed collect_all
          feed_articles_def example_make_simp)
       (subst interleave_unfold, simp, subst interleave_unfold, simp,
         subst interleave_unfold, simp)
  have c: "map source
     [example_article ''A1'' ''https://a.example/1'' ''Mens Health'',
      example_article ''C1'' ''https://c.example/1'' ''Born Fitness'',
      example_article ''A2'' ''https://a.example/2'' ''Mens Health'',
      example_article ''C2'' ''https://c.example/2'' ''Born Fitness'',
      example_article ''A3'' ''https://a.example/3'' ''Mens Health'',
      example_article ''C3'' ''https://c.example/3'' ''Born Fitness''] =
     [Some ''Mens Health'', Some ''Born Fitness'', Some ''Mens Health'',
      Some ''Born Fitness'', Some ''Mens Health'', Some ''Born Fitness'']"
    by (simp add: example_article_def)
  from a b c show ?thesis by blast
qed

section \<open>Termination of the collection loop\<close>

text \<open>
  A visited source stays in the live set exactly when it yields an article: it is dropped
  when its iterator is empty or its next entry is rejected, and otherwise it moves on by
  one entry.
\<close>

definition advance_feed :: "(string \<Rightarrow> string option) \<Rightarrow> feed \<Rightarrow> feed option" where
  "advance_feed validator f =
    (case fst f of
       [] \<Rightarrow> None
     | entry # entries \<Rightarrow> if accepted validator entry then Some (entries, snd f) else None)"

lemma advance_feed_simps:
  "advance_feed u ([], t) = None"
  "advance_feed u (e # es, t) = (if accepted u e then Some (es, t) else None)"
  by (simp_all add: advance_feed_def)

lemma make_accepted: "(\<exists>a. make_RSSFeed u t e = Inr a) = accepted u e"
  by (auto simp: accepted_def make_RSSFeed_def split: option.splits)

lemma map_filter_Cons:
  "List.map_filter g (x # xs) = (case g x of None \<Rightarrow> List.map_filter g xs | Some y \<Rightarrow> y # List.map_filter g xs)"
  by (simp add: List.map_filter_def split: option.splits)

lemma sweep_feeds_shape:
  "\<exists>k\<le>length fs.
     snd (sweep u mx fs arts) = List.map_filter (advance_feed u) (take k fs) @ drop k fs \<and>
     (int (length (fst (sweep u mx fs arts))) < mx \<longrightarrow> k = length fs)"
proof (induction fs arbitrary: arts)
  case Nil
  then show ?case by (simp add: List.map_filter_def)
next
  case (Cons f rest)
  obtain es t where f: "f = (es, t)" by (cases f)
  show ?case
  proof (cases "mx \<le> int (length arts)")
    case True
    then show ?thesis using f by (intro exI[of _ 0]) (simp add: List.map_filter_def)
  next
    case False
    show ?thesis
    proof (cases es)
      case Nil
      from Cons.IH[of arts] obtain k where k: "k \<le> length rest"
        "snd (sweep u mx rest arts) = List.map_filter (advance_feed u) (take k rest) @ drop k rest"
        "int (length (fst (sweep u mx rest arts))) < mx \<longrightarrow> k = length rest" by blast
      show ?thesis using k False f Nil
        by (intro exI[of _ "Suc k"]) (simp add: map_filter_Cons advance_feed_simps)
    next
      case (Cons e es')
      show ?thesis
      proof (cases "make_RSSFeed u t e")
        case (Inl err)
        then have na: "\<not> accepted u e" using make_accepted[of u t e] by auto
        from Cons.IH[of arts] obtain k where k: "k \<le> length rest"
          "snd (sweep u mx rest arts) = List.map_filter (advance_feed u) (take k rest) @ drop k rest"
          "int (length (fst (sweep u mx rest arts))) < mx \<longrightarrow> k = length rest" by blast
        show ?thesis using k False f Cons Inl na
          by (intro exI[of _ "Suc k"]) (simp add: map_filter_Cons advance_feed_simps)
      next
        case (Inr a)
        then have ac: "accepted u e" using make_accepted[of u t e] by auto
        from Cons.IH[of "arts @ [a]"] obtain k where k: "k \<le> length rest"
          "snd (sweep u mx rest (arts @ [a])) =
             List.map_filter (advance_feed u) (take k rest) @ drop k rest"
          "int (length (fst (sweep u mx rest (arts @ [a])))) < mx \<longrightarrow> k = length rest" by blast
        show ?thesis using k False f Cons Inr ac
          by (intro exI[of _ "Suc k"]) (simp add: map_filter_Cons advance_feed_simps split_beta)
      qed
    qed
  qed
qed

lemma loop_iterates:
  "\<exists>n\<le>remaining_work (fst s).
     \<not> loop_cond mx ((cycle u mx ^^ n) s) \<and> round_robin_loop u mx s = (cycle u mx ^^ n) s"
proof (induction u mx s rule: round_robin_loop.induct)
  case (1 u mx s)
  show ?case
  proof (cases "loop_cond mx s")
    case False
    then show ?thesis by (intro exI[of _ 0]) (simp add: round_robin_loop.simps[of u mx s])
  next
    case True
    from "1"[OF True] obtain n where n: "n \<le> remaining_work (fst (cycle u mx s))"
      "\<not> loop_cond mx ((cycle u mx ^^ n) (cycle u mx s))"
      "round_robin_loop u mx (cycle u mx s) = (cycle u mx ^^ n) (cycle u mx s)" by blast
    have less: "remaining_work (fst (cycle u mx s)) < remaining_work (fst s)"
      using True by (cases s) (simp add: loop_cond_def cycle_sweep sweep_work_less)
    have "round_robin_loop u mx s = round_robin_loop u mx (cycle u mx s)"
      using True by (subst round_robin_loop.simps) simp
    then show ?thesis using n less
      by (intro exI[of _ "Suc n"]) (simp add: funpow_swap1)
  qed
qed

text \<open>
  Claim C6. For every list of feeds, every quota and every article list to start from,
  the collection loop terminates: after at most \<open>remaining_work\<close> cycles (the number of
  feeds plus the number of their entries) the loop condition is false, and the state
  reached is the loop's result; at the end the quota is reached or no source is live. In
  each cycle that runs, \<open>remaining_work\<close> decreases, and the live set becomes: the sources
  visited (the first \<open>k\<close>) that yielded an article, each advanced by one entry, followed
  by the sources not visited; a visited source that is exhausted or raises is gone, and
  no source is ever added back. Unless the quota is reached in the cycle, all live
  sources are visited.
\<close>

theorem collection_loop_terminates:
  "(\<exists>n\<le>remaining_work (fst s).
      \<not> loop_cond Q ((cycle validator Q ^^ n) s) \<and>
      round_robin_loop validator Q s = (cycle validator Q ^^ n) s) \<and>
   (Q \<le> int (length (snd (round_robin_loop validator Q s))) \<or>
      fst (round_robin_loop validator Q s) = []) \<and>
   (loop_cond Q s \<longrightarrow>
      remaining_work (fst (cycle validator Q s)) < remaining_work (fst s) \<and>
      (\<exists>k\<le>length (fst s).
         fst (cycle validator Q s) =
           List.map_filter (advance_feed validator) (take k (fst s)) @ drop k (fst s) \<and>
         (int (length (snd (cycle validator Q s))) < Q \<longrightarrow> k = length (fst s))))"
proof -
  from loop_iterates[of s Q validator] obtain n where n: "n \<le> remaining_work (fst s)"
    "\<not> loop_cond Q ((cycle validator Q ^^ n) s)"
    "round_robin_loop validator Q s = (cycle validator Q ^^ n) s" by blast
  have a: "\<exists>n\<le>remaining_work (fst s).
      \<not> loop_cond Q ((cycle validator Q ^^ n) s) \<and>
      round_robin_loop validator Q s = (cycle validator Q ^^ n) s" using n by blast
  have b: "Q \<le> int (length (snd (round_robin_loop validator Q s))) \<or>
      fst (round_robin_loop validator Q s) = []"
    using n(2,3) by (auto simp: loop_cond_def)
  have c: "loop_cond Q s \<longrightarrow>
      remaining_work (fst (cycle validator Q s)) < remaining_work (fst s) \<and>
      (\<exists>k\<le>length (fst s).
         fst (cycle validator Q s) =
           List.map_filter (advance_feed validator) (take k (fst s)) @ drop k (fst s) \<and>
         (int (length (snd (cycle validator Q s))) < Q \<longrightarrow> k = length (fst s)))"
    using sweep_feeds_shape[of "fst s" validator Q "snd s"]
    by (cases s) (simp add: loop_cond_def cycle_sweep sweep_work_less)
  from a b c show ?thesis by blast
qed

text \<open>The theorem at the two example feeds with quota 4, where the loop runs.\<close>

theorem collection_loop_terminates_witness:
  "loop_cond 4 (parse_feeds two_feeds (select_urls ''all'' None), []) \<and>
   remaining_work (fst (cycle example_validator 4
       (parse_feeds two_feeds (select_urls ''all'' None), [])))
     < remaining_work (parse_feeds two_feeds (select_urls ''all'' None)) \<and>
   (4 \<le> int (length (snd (round_robin_loop example_validator 4
       (parse_feeds two_feeds (select_urls ''all'' None), [])))) \<or>
    fst (round_robin_loop example_validator 4
       (parse_feeds two_feeds (select_urls ''all'' None), [])) = [])"
proof -
  have h: "loop_cond 4 (parse_feeds two_feeds (select_urls ''all'' None), [])"
    by (simp add: loop_cond_def two_feeds_parsed)
  from collection_loop_terminates[of "(parse_feeds two_feeds (select_urls ''all'' None), [])" 4
      example_validator] h
  show ?thesis by simp
qed

section \<open>What rss_fetcher selects\<close>

text \<open>
  The articles that are new and the ones already seen split the fetched list, so the
  comprehension \<^verbatim>\<open>[a for a in all_articles_from_feed if a not in new_articles]\<close> is the
  list of the seen ones. Every path of \<open>fetch_rss_feeds\<close> returns at most \<open>max_articles\<close>
  articles, each an available entry of a feed, taken once.
\<close>

lemma select_articles_eq:
  "select_articles md5 store mx fetched =
    (let new = filter (\<lambda>a. \<not> is_duplicate md5 store a) fetched;
         seen = filter (is_duplicate md5 store) fetched
     in if int (length new) < mx then new @ take (nat (mx - int (length new))) seen else new)"
proof -
  have "filter (\<lambda>a. a \<notin> set (filter (\<lambda>a. \<not> is_duplicate md5 store a) fetched)) fetched =
        filter (is_duplicate md5 store) fetched"
    by (rule filter_cong) auto
  then show ?thesis by (simp add: select_articles_def Let_def)
qed

lemma single_source_length:
  "single_source u mx t i es arts = Inr out \<Longrightarrow>
   int (length out) \<le> int (length arts) + max 0 (mx - int i)"
proof (induction es arbitrary: i arts)
  case Nil
  then show ?case by auto
next
  case (Cons e es)
  show ?case
  proof (cases "mx \<le> int i")
    case True
    with Cons.prems show ?thesis by auto
  next
    case False
    with Cons.prems obtain a where a: "make_RSSFeed u t e = Inr a"
      and r: "single_source u mx t (Suc i) es (arts @ [a]) = Inr out"
      by (auto split: sum.splits)
    from Cons.IH[OF r] False show ?thesis by auto
  qed
qed

lemma collect_articles_length:
  "collect_articles u src mx feeds = Inr out \<Longrightarrow> int (length out) \<le> max 0 mx"
proof -
  assume c: "collect_articles u src mx feeds = Inr out"
  show ?thesis
  proof (cases "1 < length feeds \<and> src = ''all''")
    case True
    with c have "out = take (nat mx) (interleave (map (feed_articles u) feeds))"
      by (simp add: collect_all)
    then show ?thesis by auto
  next
    case False
    show ?thesis
    proof (cases "length feeds = 1")
      case True
      then obtain es t where "feeds = [(es, t)]" by (cases feeds) auto
      with c False have "single_source u mx t 0 es [] = Inr out"
        by (simp add: collect_articles_def)
      from single_source_length[OF this] show ?thesis by simp
    next
      case f: False
      with c False have "out = []" by (auto simp: collect_articles_def split: if_splits)
      then show ?thesis by simp
    qed
  qed
qed









section \<open>The recycling step\<close>

text \<open>
  The state a run starts from (\<open>main\<close>, lines 166-171): no articles, nothing processed,
  the store as earlier runs left it.
\<close>

definition initial_state :: "InputConfig \<Rightarrow> (string \<rightharpoonup> bool) \<Rightarrow> WorkflowState" where
  "initial_state cfg store =
     \<lparr>config = cfg, articles = [], processed_count = 0, processed_urls_store = store,
      effects = []\<rparr>"

text \<open>
  Claim C2, as amended. When the run finds fewer new articles than the quota, the
  recycling step appends to the new articles every fetched article that was seen before,
  in the order fetched and each once. The output then has exactly as many articles as
  were fetched, which is at most the quota; it reaches the quota only when the fetch
  returned that many.
\<close>

theorem recycling_returns_fetched_pool:
  assumes "fetch_rss_feeds (parse c) (http_url c) (config_source (config state))
             (customFeedUrl (config state)) (maxArticles (config state)) = Inr fetched"
    and "int (length (filter (\<lambda>a. \<not> is_duplicate (md5_hexdigest c) (processed_urls_store state) a)
                        fetched)) < maxArticles (config state)"
  shows "\<exists>state'. rss_fetcher c state = Inr state' \<and>
           articles state' =
             filter (\<lambda>a. \<not> is_duplicate (md5_hexdigest c) (processed_urls_store state) a) fetched @
             filter (is_duplicate (md5_hexdigest c) (processed_urls_store state)) fetched \<and>
           length (articles state') = length fetched \<and>
           int (length fetched) \<le> maxArticles (config state)"
proof -
  let ?new = "filter (\<lambda>a. \<not> is_duplicate (md5_hexdigest c) (processed_urls_store state) a) fetched"
  let ?seen = "filter (is_duplicate (md5_hexdigest c) (processed_urls_store state)) fetched"
  let ?mx = "maxArticles (config state)"
  have split: "length ?new + length ?seen = length fetched"
    by (induction fetched) auto
  have "int (length fetched) \<le> max 0 ?mx"
    using assms(1) unfolding fetch_rss_feeds_def by (rule collect_articles_length)
  moreover have "0 < ?mx" using assms(2) by linarith
  ultimately have le: "int (length fetched) \<le> ?mx" by simp
  then have "length ?seen \<le> nat (?mx - int (length ?new))" using split by linarith
  then have "select_articles (md5_hexdigest c) (processed_urls_store state) ?mx fetched =
      ?new @ ?seen"
    using assms(2) by (simp add: select_articles_eq Let_def)
  then show ?thesis using assms(1) split le by (simp add: rss_fetcher_def)
qed


subsection \<open>An example run\<close>

text \<open>
  Collaborators for the examples, and the scenario of the specification: the quota is 10,
  two feeds answer with five and three entries, and four of the eight links are in the
  store.
\<close>

definition example_md5 :: "string \<Rightarrow> string" where
  "example_md5 s = ''md5:'' @ s"

definition example_collaborators :: "(string \<Rightarrow> fetch_result) \<Rightarrow> collaborators" where
  "example_collaborators feeds =
     \<lparr>parse = feeds, http_url = example_validator, md5_hexdigest = example_md5,
      search = (\<lambda>query is_test_mode region time_limit.
                  ''A summary of the news event, synthesized from the search snippets.''),
      analyze = (\<lambda>summary is_test_mode.
                  \<lparr>result_sentiment = ''General Info/Tip'', result_category = ''General Health'',
                   result_key_entities = []\<rparr>),
      push_succeeds = (\<lambda>dataset_record. True)\<rparr>"

definition example_config :: "string \<Rightarrow> int \<Rightarrow> InputConfig" where
  "example_config src n =
     \<lparr>config_source = src, customFeedUrl = None, maxArticles = n, region = ''wt-wt'',
      timeLimit = ''w'', runTestMode = False\<rparr>"

definition five_and_three :: "string \<Rightarrow> fetch_result" where
  "five_and_three feed_url =
    (if feed_url = ''https://www.menshealth.com/rss/all.xml/'' then
       Parsed [example_entry ''A1'' ''https://a.example/1'',
               example_entry ''A2'' ''https://a.example/2'',
               example_entry ''A3'' ''https://a.example/3'',
               example_entry ''A4'' ''https://a.example/4'',
               example_entry ''A5'' ''https://a.example/5''] (Some ''Mens Health'')
     else if feed_url = ''https://blog.myfitnesspal.com/feed'' then
       Parsed [example_entry ''B1'' ''https://b.example/1'',
               example_entry ''B2'' ''https://b.example/2'',
               example_entry ''B3'' ''https://b.example/3''] (Some ''MyFitnessPal'')
     else ParseFailed)"

definition four_seen :: "string \<rightharpoonup> bool" where
  "four_seen =
     map_of [(example_md5 ''https://a.example/1'', True), (example_md5 ''https://a.example/2'', True),
             (example_md5 ''https://b.example/1'', True), (example_md5 ''https://b.example/2'', True)]"

lemma five_and_three_parsed:
  "parse_feeds five_and_three (select_urls ''all'' None) =
     [([example_entry ''A1'' ''https://a.example/1'',
        example_entry ''A2'' ''https://a.example/2'',
        example_entry ''A3'' ''https://a.example/3'',
        example_entry ''A4'' ''https://a.example/4'',
        example_entry ''A5'' ''https://a.example/5''], ''Mens Health''),
      ([example_entry ''B1'' ''https://b.example/1'',
        example_entry ''B2'' ''https://b.example/2'',
        example_entry ''B3'' ''https://b.example/3''], ''MyFitnessPal'')]"
  by (simp add: select_urls_def feed_map_def List.map_filter_def five_and_three_def)

declare example_make_simp [simp]

lemma five_and_three_fetched:
  "fetch_rss_feeds five_and_three example_validator ''all'' None 10 =
     Inr [example_article ''A1'' ''https://a.example/1'' ''Mens Health'',
          example_article ''B1'' ''https://b.example/1'' ''MyFitnessPal'',
          example_article ''A2'' ''https://a.example/2'' ''Mens Health'',
          example_article ''B2'' ''https://b.example/2'' ''MyFitnessPal'',
          example_article ''A3'' ''https://a.example/3'' ''Mens Health'',
          example_article ''B3'' ''https://b.example/3'' ''MyFitnessPal'',
          example_article ''A4'' ''https://a.example/4'' ''Mens Health'',
          example_article ''A5'' ''https://a.example/5'' ''Mens Health'']"
  by (simp add: fetch_rss_feeds_def five_and_three_parsed collect_all feed_articles_def
        interleave.simps)

lemma five_and_three_new:
  "filter (\<lambda>a. \<not> is_duplicate example_md5 four_seen a)
     [example_article ''A1'' ''https://a.example/1'' ''Mens Health'',
      example_article ''B1'' ''https://b.example/1'' ''MyFitnessPal'',
      example_article ''A2'' ''https://a.example/2'' ''Mens Health'',
      example_article ''B2'' ''https://b.example/2'' ''MyFitnessPal'',
      example_article ''A3'' ''https://a.example/3'' ''Mens Health'',
      example_article ''B3'' ''https://b.example/3'' ''MyFitnessPal'',
      example_article ''A4'' ''https://a.example/4'' ''Mens Health'',
      example_article ''A5'' ''https://a.example/5'' ''Mens Health''] =
     [example_article ''A3'' ''https://a.example/3'' ''Mens Health'',
      example_article ''B3'' ''https://b.example/3'' ''MyFitnessPal'',
      example_article ''A4'' ''https://a.example/4'' ''Mens Health'',
      example_article ''A5'' ''https://a.example/5'' ''Mens Health'']"
  by (simp add: is_duplicate_def four_seen_def example_md5_def example_article_def)

text \<open>The theorem at the scenario.\<close>

theorem recycling_returns_fetched_pool_witness:
  "fetch_rss_feeds five_and_three example_validator ''all'' None 10 =
     Inr [example_article ''A1'' ''https://a.example/1'' ''Mens Health'',
          example_article ''B1'' ''https://b.example/1'' ''MyFitnessPal'',
          example_article ''A2'' ''https://a.example/2'' ''Mens Health'',
          example_article ''B2'' ''https://b.example/2'' ''MyFitnessPal'',
          example_article ''A3'' ''https://a.example/3'' ''Mens Health'',
          example_article ''B3'' ''https://b.example/3'' ''MyFitnessPal'',
          example_article ''A4'' ''https://a.example/4'' ''Mens Health'',
          example_article ''A5'' ''https://a.example/5'' ''Mens Health''] \<and>
   int (length (filter (\<lambda>a. \<not> is_duplicate example_md5 four_seen a)
     [example_article ''A1'' ''https://a.example/1'' ''Mens Health'',
      example_article ''B1'' ''https://b.example/1'' ''MyFitnessPal'',
      example_article ''A2'' ''https://a.example/2'' ''Mens Health'',
      example_article ''B2'' ''https://b.example/2'' ''MyFitnessPal'',
      example_article ''A3'' ''https://a.example/3'' ''Mens Health'',
      example_article ''B3'' ''https://b.example/3'' ''MyFitnessPal'',
      example_article ''A4'' ''https://a.example/4'' ''Mens Health'',
      example_article ''A5'' ''https://a.example/5'' ''Mens Health''])) < 10 \<and>
   (\<exists>state'. rss_fetcher (example_collaborators five_and_three)
        (initial_state (example_config ''all'' 10) four_seen) = Inr state' \<and>
      length (articles state') = 8)"
proof -
  let ?c = "example_collaborators five_and_three"
  let ?s = "initial_state (example_config ''all'' 10) four_seen"
  let ?F = "[example_article ''A1'' ''https://a.example/1'' ''Mens Health'',
             example_article ''B1'' ''https://b.example/1'' ''MyFitnessPal'',
             example_article ''A2'' ''https://a.example/2'' ''Mens Health'',
             example_article ''B2'' ''https://b.example/2'' ''MyFitnessPal'',
             example_article ''A3'' ''https://a.example/3'' ''Mens Health'',
             example_article ''B3'' ''https://b.example/3'' ''MyFitnessPal'',
             example_article ''A4'' ''https://a.example/4'' ''Mens Health'',
             example_article ''A5'' ''https://a.example/5'' ''Mens Health'']"
  have h1: "fetch_rss_feeds (parse ?c) (http_url ?c) (config_source (config ?s))
      (customFeedUrl (config ?s)) (maxArticles (config ?s)) = Inr ?F"
    using five_and_three_fetched
    by (simp add: example_collaborators_def initial_state_def example_config_def)
  have h2: "int (length (filter (\<lambda>a. \<not> is_duplicate (md5_hexdigest ?c) (processed_urls_store ?s) a) ?F))
      < maxArticles (config ?s)"
    using five_and_three_new
    by (simp add: example_collaborators_def initial_state_def example_config_def)
  from recycling_returns_fetched_pool[OF h1 h2]
  have "\<exists>state'. rss_fetcher ?c ?s = Inr state' \<and> length (articles state') = 8" by auto
  then show ?thesis using five_and_three_fetched five_and_three_new by simp
qed

text \<open>
  Claim C2 as stated fails at the scenario: with quota 10 and 4 new articles among 8
  fetched, the output is the 4 new articles and the 4 seen ones, 8 in all and not 10.
\<close>

theorem quota_10_fetched_8_counterexample:
  "fetch_rss_feeds five_and_three example_validator ''all'' None 10 =
     Inr [example_article ''A1'' ''https://a.example/1'' ''Mens Health'',
          example_article ''B1'' ''https://b.example/1'' ''MyFitnessPal'',
          example_article ''A2'' ''https://a.example/2'' ''Mens Health'',
          example_article ''B2'' ''https://b.example/2'' ''MyFitnessPal'',
          example_article ''A3'' ''https://a.example/3'' ''Mens Health'',
          example_article ''B3'' ''https://b.example/3'' ''MyFitnessPal'',
          example_article ''A4'' ''https://a.example/4'' ''Mens Health'',
          example_article ''A5'' ''https://a.example/5'' ''Mens Health''] \<and>
   filter (\<lambda>a. \<not> is_duplicate example_md5 four_seen a)
     [example_article ''A1'' ''https://a.example/1'' ''Mens Health'',
      example_article ''B1'' ''https://b.example/1'' ''MyFitnessPal'',
      example_article ''A2'' ''https://a.example/2'' ''Mens Health'',
      example_article ''B2'' ''https://b.example/2'' ''MyFitnessPal'',
      example_article ''A3'' ''https://a.example/3'' ''Mens Health'',
      example_article ''B3'' ''https://b.example/3'' ''MyFitnessPal'',
      example_article ''A4'' ''https://a.example/4'' ''Mens Health'',
      example_article ''A5'' ''https://a.example/5'' ''Mens Health''] =
     [example_article ''A3'' ''https://a.example/3'' ''Mens Health'',
      example_article ''B3'' ''https://b.example/3'' ''MyFitnessPal'',
      example_article ''A4'' ''https://a.example/4'' ''Mens Health'',
      example_article ''A5'' ''https://a.example/5'' ''Mens Health''] \<and>
   (\<exists>state'. rss_fetcher (example_collaborators five_and_three)
        (initial_state (example_config ''all'' 10) four_seen) = Inr state' \<and>
      articles state' =
        [example_article ''A3'' ''https://a.example/3'' ''Mens Health'',
         example_article ''B3'' ''https://b.example/3'' ''MyFitnessPal'',
         example_article ''A4'' ''https://a.example/4'' ''Mens Health'',
         example_article ''A5'' ''https://a.example/5'' ''Mens Health'',
         example_article ''A1'' ''https://a.example/1'' ''Mens Health'',
         example_article ''B1'' ''https://b.example/1'' ''MyFitnessPal'',
         example_article ''A2'' ''https://a.example/2'' ''Mens Health'',
         example_article ''B2'' ''https://b.example/2'' ''MyFitnessPal''] \<and>
      length (articles state') = 8)"
proof -
  let ?c = "example_collaborators five_and_three"
  let ?s = "initial_state (example_config ''all'' 10) four_seen"
  have sel: "select_articles example_md5 four_seen 10
     [example_article ''A1'' ''https://a.example/1'' ''Mens Health'',
      example_article ''B1'' ''https://b.example/1'' ''MyFitnessPal'',
      example_article ''A2'' ''https://a.example/2'' ''Mens Health'',
      example_article ''B2'' ''https://b.example/2'' ''MyFitnessPal'',
      example_article ''A3'' ''https://a.example/3'' ''Mens Health'',
      example_article ''B3'' ''https://b.example/3'' ''MyFitnessPal'',
      example_article ''A4'' ''https://a.example/4'' ''Mens Health'',
      example_article ''A5'' ''https://a.example/5'' ''Mens Health''] =
     [example_article ''A3'' ''https://a.example/3'' ''Mens Health'',
      example_article ''B3'' ''https://b.example/3'' ''MyFitnessPal'',
      example_article ''A4'' ''https://a.example/4'' ''Mens Health'',
      example_article ''A5'' ''https://a.example/5'' ''Mens Health'',
      example_article ''A1'' ''https://a.example/1'' ''Mens Health'',
      example_article ''B1'' ''https://b.example/1'' ''MyFitnessPal'',
      example_article ''A2'' ''https://a.example/2'' ''Mens Health'',
      example_article ''B2'' ''https://b.example/2'' ''MyFitnessPal'']"
    by (simp add: select_articles_def Let_def is_duplicate_def four_seen_def example_md5_def
          example_article_def)
  have run: "rss_fetcher ?c ?s =
      Inr (?s\<lparr>articles := select_articles example_md5 four_seen 10
     [example_article ''A1'' ''https://a.example/1'' ''Mens Health'',
      example_article ''B1'' ''https://b.example/1'' ''MyFitnessPal'',
      example_article ''A2'' ''https://a.example/2'' ''Mens Health'',
      example_article ''B2'' ''https://b.example/2'' ''MyFitnessPal'',
      example_article ''A3'' ''https://a.example/3'' ''Mens Health'',
      example_article ''B3'' ''https://b.example/3'' ''MyFitnessPal'',
      example_article ''A4'' ''https://a.example/4'' ''Mens Health'',
      example_article ''A5'' ''https://a.example/5'' ''Mens Health''], processed_count := 0\<rparr>)"
    by (simp add: rss_fetcher_def five_and_three_fetched example_collaborators_def
          initial_state_def example_config_def)
  show ?thesis
    apply (intro conjI)
      apply (rule five_and_three_fetched)
     apply (rule five_and_three_new)
    apply (simp only: run sel)
    apply simp
    done
qed

section \<open>Links within one run\<close>








section \<open>The deduplication filter\<close>

text \<open>
  Claim C8. An entry whose link hash is marked in the store (the key holds \<open>True\<close>, as
  \<open>process_and_save_article\<close> writes it) is not among the new articles of a later run. The
  articles handed on are the new ones followed by the recycled ones, and nothing is
  recycled unless fewer new articles than the quota were found; so a seen entry is in
  the output only when the recycling step backfilled it.
\<close>

theorem seen_entries_filtered:
  assumes "fetch_rss_feeds (parse c) (http_url c) (config_source (config state))
             (customFeedUrl (config state)) (maxArticles (config state)) = Inr fetched"
    and "processed_urls_store state (md5_hexdigest c (link a)) = Some True"
  shows "a \<notin> set (filter (\<lambda>x. \<not> is_duplicate (md5_hexdigest c) (processed_urls_store state) x)
                     fetched) \<and>
         (\<exists>state' recycled.
            rss_fetcher c state = Inr state' \<and>
            articles state' =
              filter (\<lambda>x. \<not> is_duplicate (md5_hexdigest c) (processed_urls_store state) x) fetched
                @ recycled \<and>
            (\<not> int (length (filter
                   (\<lambda>x. \<not> is_duplicate (md5_hexdigest c) (processed_urls_store state) x) fetched))
                 < maxArticles (config state) \<longrightarrow> recycled = []))"
proof -
  have "is_duplicate (md5_hexdigest c) (processed_urls_store state) a"
    using assms(2) by (simp add: is_duplicate_def)
  then have 1: "a \<notin> set (filter (\<lambda>x. \<not> is_duplicate (md5_hexdigest c) (processed_urls_store state) x)
                     fetched)" by simp
  let ?new = "filter (\<lambda>x. \<not> is_duplicate (md5_hexdigest c) (processed_urls_store state) x) fetched"
  let ?seen = "filter (is_duplicate (md5_hexdigest c) (processed_urls_store state)) fetched"
  let ?mx = "maxArticles (config state)"
  let ?recycled = "if int (length ?new) < ?mx then take (nat (?mx - int (length ?new))) ?seen else []"
  have "select_articles (md5_hexdigest c) (processed_urls_store state) ?mx fetched = ?new @ ?recycled"
    by (simp add: select_articles_eq Let_def)
  then have "rss_fetcher c state =
      Inr (state\<lparr>articles := ?new @ ?recycled, processed_count := 0\<rparr>)"
    using assms(1) by (simp add: rss_fetcher_def)
  then have "\<exists>state' recycled.
            rss_fetcher c state = Inr state' \<and> articles state' = ?new @ recycled \<and>
            (\<not> int (length ?new) < ?mx \<longrightarrow> recycled = [])"
    by (intro exI[of _ "state\<lparr>articles := ?new @ ?recycled, processed_count := 0\<rparr>"]
          exI[of _ ?recycled]) simp
  with 1 show ?thesis by blast
qed

text \<open>The theorem at the scenario above, for the first entry, whose link is marked.\<close>

theorem seen_entries_filtered_witness:
  "four_seen (example_md5 (link (example_article ''A1'' ''https://a.example/1'' ''Mens Health'')))
     = Some True \<and>
   example_article ''A1'' ''https://a.example/1'' ''Mens Health''
     \<notin> set (filter (\<lambda>x. \<not> is_duplicate example_md5 four_seen x)
         [example_article ''A1'' ''https://a.example/1'' ''Mens Health'',
          example_article ''B1'' ''https://b.example/1'' ''MyFitnessPal'',
          example_article ''A2'' ''https://a.example/2'' ''Mens Health'',
          example_article ''B2'' ''https://b.example/2'' ''MyFitnessPal'',
          example_article ''A3'' ''https://a.example/3'' ''Mens Health'',
          example_article ''B3'' ''https://b.example/3'' ''MyFitnessPal'',
          example_article ''A4'' ''https://a.example/4'' ''Mens Health'',
          example_article ''A5'' ''https://a.example/5'' ''Mens Health''])"
proof -
  let ?c = "example_collaborators five_and_three"
  let ?s = "initial_state (example_config ''all'' 10) four_seen"
  let ?a = "example_article ''A1'' ''https://a.example/1'' ''Mens Health''"
  let ?F = "[example_article ''A1'' ''https://a.example/1'' ''Mens Health'',
          example_article ''B1'' ''https://b.example/1'' ''MyFitnessPal'',
          example_article ''A2'' ''https://a.example/2'' ''Mens Health'',
          example_article ''B2'' ''https://b.example/2'' ''MyFitnessPal'',
          example_article ''A3'' ''https://a.example/3'' ''Mens Health'',
          example_article ''B3'' ''https://b.example/3'' ''MyFitnessPal'',
          example_article ''A4'' ''https://a.example/4'' ''Mens Health'',
          example_article ''A5'' ''https://a.example/5'' ''Mens Health'']"
  have h1: "fetch_rss_feeds (parse ?c) (http_url ?c) (config_source (config ?s))
      (customFeedUrl (config ?s)) (maxArticles (config ?s)) = Inr ?F"
    using five_and_three_fetched
    by (simp add: example_collaborators_def initial_state_def example_config_def)
  have seen: "four_seen (example_md5 (link ?a)) = Some True"
    by (simp add: four_seen_def example_md5_def example_article_def)
  then have h2: "processed_urls_store ?s (md5_hexdigest ?c (link ?a)) = Some True"
    by (simp add: example_collaborators_def initial_state_def)
  have md: "md5_hexdigest ?c = example_md5" "processed_urls_store ?s = four_seen"
    by (simp_all add: example_collaborators_def initial_state_def)
  from seen_entries_filtered[OF h1 h2]
  have "?a \<notin> set (filter (\<lambda>x. \<not> is_duplicate example_md5 four_seen x) ?F)"
    unfolding md by (rule conjunct1)
  with seen show ?thesis by (rule conjI)
qed

section \<open>Marking a link as seen\<close>

text \<open>
  \<open>write_effect\<close> is what an effect does to the store. \<open>committed_after_push\<close> reads a
  log of effects: every write to the store comes directly after the push of a record, and
  writes \<open>True\<close> under the hash of that record's URL.
\<close>

fun write_effect :: "(string \<rightharpoonup> bool) \<Rightarrow> effect \<Rightarrow> (string \<rightharpoonup> bool)" where
  "write_effect store (PushData r) = store"
| "write_effect store (SetValue k v) = store(k \<mapsto> v)"

fun committed_after_push :: "(string \<Rightarrow> string) \<Rightarrow> effect list \<Rightarrow> bool" where
  "committed_after_push md5 [] = True"
| "committed_after_push md5 (PushData r # SetValue k v # rest) =
     (k = md5 (url r) \<and> v \<and> committed_after_push md5 rest)"
| "committed_after_push md5 (PushData r # rest) = committed_after_push md5 rest"
| "committed_after_push md5 (SetValue k v # rest) = False"

lemma step_effects:
  assumes "processed_count state < length (articles state)"
  shows "(find_overview c (config state) (articles state ! processed_count state) = [] \<longrightarrow>
            process_and_save_article c state =
              (None, state\<lparr>processed_count := processed_count state + 1\<rparr>)) \<and>
         ((effects (snd (process_and_save_article c state)) = effects state \<and>
           processed_urls_store (snd (process_and_save_article c state)) =
             processed_urls_store state) \<or>
          (\<exists>r. push_succeeds c r \<and> url r = link (articles state ! processed_count state) \<and>
             find_overview c (config state) (articles state ! processed_count state) \<noteq> [] \<and>
             fst (process_and_save_article c state) = None \<and>
             effects (snd (process_and_save_article c state)) =
               effects state @ [PushData r, SetValue (md5_hexdigest c (url r)) True] \<and>
             processed_urls_store (snd (process_and_save_article c state)) =
               (processed_urls_store state)(md5_hexdigest c (url r) \<mapsto> True))) \<and>
         (fst (process_and_save_article c state) \<noteq> None \<longrightarrow>
            effects (snd (process_and_save_article c state)) = effects state \<and>
            processed_urls_store (snd (process_and_save_article c state)) =
              processed_urls_store state)"
  using assms by (auto simp: process_and_save_article_def Let_def)

lemma run_effects:
  "\<exists>new. effects (snd (process_articles c state)) = effects state @ new \<and>
         committed_after_push (md5_hexdigest c) new \<and>
         processed_urls_store (snd (process_articles c state)) =
           foldl write_effect (processed_urls_store state) new"
proof (induction c state rule: process_articles.induct)
  case (1 c state)
  show ?case
  proof (cases "should_continue state = ''continue''")
    case False
    then have "process_articles c state = (None, state)"
      by (subst process_articles.simps) simp
    then show ?thesis by (intro exI[of _ "[]"]) simp
  next
    case True
    then have lt: "processed_count state < length (articles state)"
      by (auto simp: should_continue_def split: if_splits)
    obtain e s' where p: "process_and_save_article c state = (e, s')"
      by (cases "process_and_save_article c state")
    from step_effects[OF lt, of c] p obtain step where
      step: "effects s' = effects state @ step" "committed_after_push (md5_hexdigest c) step"
        "processed_urls_store s' = foldl write_effect (processed_urls_store state) step"
        "step = [] \<or> (\<exists>r. step = [PushData r, SetValue (md5_hexdigest c (url r)) True])"
      by (elim conjE disjE exE) (force, force)
    show ?thesis
    proof (cases e)
      case (Some err)
      then have "process_articles c state = (Some err, s')"
        using True p by (subst process_articles.simps) simp
      with step show ?thesis by auto
    next
      case None
      then have r: "process_articles c state = process_articles c s'"
        using True p by (subst process_articles.simps) simp
      from "1"[OF True p[symmetric] None] obtain new where
        new: "effects (snd (process_articles c s')) = effects s' @ new"
          "committed_after_push (md5_hexdigest c) new"
          "processed_urls_store (snd (process_articles c s')) =
             foldl write_effect (processed_urls_store s') new"
        by blast
      have "committed_after_push (md5_hexdigest c) (step @ new)"
        using step(2,4) new(2) by auto
      then show ?thesis using r step new by (intro exI[of _ "step @ new"]) simp
    qed
  qed
qed


text \<open>
  Claim C4. For the article that \<open>process_and_save_article\<close> is called on:
  \<^item> when no summary can be produced, the article is skipped: the state is unchanged but
    for the counter, so the store and the log are as before;
  \<^item> otherwise either nothing happens to the store and the log, or the record of this
    article was pushed successfully and then, directly after, the hash of its link was
    written to the store;
  \<^item> when the call raises (the push failed), the store and the log are as before.

  Over the rest of the run, the effects added to the log satisfy
  \<open>committed_after_push\<close>, and the store changes by these writes alone.
\<close>

theorem store_committed_only_after_push:
  assumes "processed_count state < length (articles state)"
  shows "(find_overview c (config state) (articles state ! processed_count state) = [] \<longrightarrow>
            process_and_save_article c state =
              (None, state\<lparr>processed_count := processed_count state + 1\<rparr>)) \<and>
         ((effects (snd (process_and_save_article c state)) = effects state \<and>
           processed_urls_store (snd (process_and_save_article c state)) =
             processed_urls_store state) \<or>
          (\<exists>r. push_succeeds c r \<and> url r = link (articles state ! processed_count state) \<and>
             find_overview c (config state) (articles state ! processed_count state) \<noteq> [] \<and>
             fst (process_and_save_article c state) = None \<and>
             effects (snd (process_and_save_article c state)) =
               effects state @ [PushData r, SetValue (md5_hexdigest c (url r)) True] \<and>
             processed_urls_store (snd (process_and_save_article c state)) =
               (processed_urls_store state)(md5_hexdigest c (url r) \<mapsto> True))) \<and>
         (fst (process_and_save_article c state) \<noteq> None \<longrightarrow>
            effects (snd (process_and_save_article c state)) = effects state \<and>
            processed_urls_store (snd (process_and_save_article c state)) =
              processed_urls_store state) \<and>
         (\<exists>new. effects (snd (process_articles c state)) = effects state @ new \<and>
            committed_after_push (md5_hexdigest c) new \<and>
            processed_urls_store (snd (process_articles c state)) =
              foldl write_effect (processed_urls_store state) new)"
  using step_effects[OF assms, of c] run_effects[of c state] by blast

text \<open>
  The theorem at a state with one article to process, with collaborators whose search
  finds nothing (the article has no feed summary either, so it is skipped) and with
  collaborators whose search returns a summary.
\<close>

definition one_article :: WorkflowState where
  "one_article =
     (initial_state (example_config ''all'' 10) Map.empty)
       \<lparr>articles := [example_article ''A1'' ''https://a.example/1'' ''Mens Health'']\<rparr>"

definition no_summary :: "collaborators \<Rightarrow> collaborators" where
  "no_summary c = c\<lparr>search := (\<lambda>query is_test_mode region time_limit. [])\<rparr>"

theorem store_committed_only_after_push_witness:
  "processed_count one_article < length (articles one_article) \<and>
   find_overview (no_summary (example_collaborators two_feeds)) (config one_article)
     (articles one_article ! processed_count one_article) = [] \<and>
   process_and_save_article (no_summary (example_collaborators two_feeds)) one_article =
     (None, one_article\<lparr>processed_count := 1\<rparr>) \<and>
   effects (snd (process_and_save_article (example_collaborators two_feeds) one_article)) =
     [PushData \<lparr>record_source = Some ''Mens Health'', record_title = ''A1'',
                url = ''https://a.example/1'', record_published = None,
                record_summary =
                  Some ''A summary of the news event, synthesized from the search snippets.'',
                sentiment = Some ''General Info/Tip'', category = Some ''General Health'',
                key_entities = Some []\<rparr>,
      SetValue ''md5:https://a.example/1'' True] \<and>
   (\<exists>new. effects (snd (process_articles (example_collaborators two_feeds) one_article)) =
        effects one_article @ new \<and>
      committed_after_push example_md5 new)"
proof -
  let ?c = "example_collaborators two_feeds"
  have h: "processed_count one_article < length (articles one_article)"
    by (simp add: one_article_def initial_state_def)
  have skip: "find_overview (no_summary ?c) (config one_article)
     (articles one_article ! processed_count one_article) = []"
    by (simp add: find_overview_def no_summary_def one_article_def initial_state_def
          example_article_def truthy_def Let_def)
  have pc: "processed_count one_article + 1 = 1"
    by (simp add: one_article_def initial_state_def)
  have md: "md5_hexdigest ?c = example_md5" by (simp add: example_collaborators_def)
  have eff: "effects (snd (process_and_save_article ?c one_article)) =
     [PushData \<lparr>record_source = Some ''Mens Health'', record_title = ''A1'',
                url = ''https://a.example/1'', record_published = None,
                record_summary =
                  Some ''A summary of the news event, synthesized from the search snippets.'',
                sentiment = Some ''General Info/Tip'', category = Some ''General Health'',
                key_entities = Some []\<rparr>,
      SetValue ''md5:https://a.example/1'' True]"
    by (simp add: process_and_save_article_def find_overview_def Let_def one_article_def
          initial_state_def example_collaborators_def example_config_def example_article_def
          example_md5_def)
  from store_committed_only_after_push[OF h, of "no_summary ?c"] skip pc
  have 1: "process_and_save_article (no_summary ?c) one_article =
     (None, one_article\<lparr>processed_count := 1\<rparr>)" by simp
  from store_committed_only_after_push[OF h, of ?c]
  have 2: "\<exists>new. effects (snd (process_articles ?c one_article)) = effects one_article @ new \<and>
      committed_after_push example_md5 new" unfolding md by blast
  from h skip 1 eff 2 show ?thesis by blast
qed

section \<open>A run in which every source fails\<close>

text \<open>
  Claim C7. If every selected feed URL fails to fetch (\<^verbatim>\<open>feedparser.parse\<close> raises, or the
  feed has no entries), then \<open>fetch_rss_feeds\<close> returns the empty list without raising,
  \<open>rss_fetcher\<close> hands on no articles, \<open>should_continue\<close> answers \<open>end\<close>, and the graph
  finishes without an exception, having pushed nothing and written nothing to the store.
\<close>

theorem all_sources_fail:
  assumes "\<forall>feed_url\<in>set (select_urls (config_source (config state)) (customFeedUrl (config state))).
             parse c feed_url = ParseFailed \<or> (\<exists>t. parse c feed_url = Parsed [] t)"
  shows "fetch_rss_feeds (parse c) (http_url c) (config_source (config state))
           (customFeedUrl (config state)) (maxArticles (config state)) = Inr [] \<and>
         rss_fetcher c state = Inr (state\<lparr>articles := [], processed_count := 0\<rparr>) \<and>
         should_continue (state\<lparr>articles := [], processed_count := 0\<rparr>) = ''end'' \<and>
         run_graph c state = (None, state\<lparr>articles := [], processed_count := 0\<rparr>)"
proof -
  have "parse_feeds (parse c) urls = []"
    if "\<forall>feed_url\<in>set urls. parse c feed_url = ParseFailed \<or> (\<exists>t. parse c feed_url = Parsed [] t)"
    for urls
    using that by (induction urls) auto
  from this[OF assms] have fetch: "fetch_rss_feeds (parse c) (http_url c)
      (config_source (config state)) (customFeedUrl (config state)) (maxArticles (config state))
      = Inr []"
    by (simp add: fetch_rss_feeds_def collect_articles_def)
  have sel: "select_articles (md5_hexdigest c) (processed_urls_store state)
      (maxArticles (config state)) [] = []"
    by (simp add: select_articles_def)
  have fetcher: "rss_fetcher c state = Inr (state\<lparr>articles := [], processed_count := 0\<rparr>)"
    by (simp add: rss_fetcher_def fetch sel)
  have cont: "should_continue (state\<lparr>articles := [], processed_count := 0\<rparr>) = ''end''"
    by (simp add: should_continue_def)
  have "process_articles c (state\<lparr>articles := [], processed_count := 0\<rparr>) =
      (None, state\<lparr>articles := [], processed_count := 0\<rparr>)"
    using cont by (subst process_articles.simps) simp
  then have "run_graph c state = (None, state\<lparr>articles := [], processed_count := 0\<rparr>)"
    by (simp add: run_graph_def fetcher)
  with fetch fetcher cont show ?thesis by blast
qed

text \<open>The theorem at a run where one feed is empty and all others raise.\<close>

definition all_down :: "string \<Rightarrow> fetch_result" where
  "all_down feed_url =
     (if feed_url = ''https://www.menshealth.com/rss/all.xml/'' then Parsed [] (Some ''Mens Health'')
      else ParseFailed)"

theorem all_sources_fail_witness:
  "list_all (\<lambda>feed_url. all_down feed_url = ParseFailed \<or>
               all_down feed_url = Parsed [] (Some ''Mens Health''))
     (select_urls ''all'' None) \<and>
   fetch_rss_feeds all_down example_validator ''all'' None 10 = Inr [] \<and>
   run_graph (example_collaborators all_down) (initial_state (example_config ''all'' 10) four_seen)
     = (None, initial_state (example_config ''all'' 10) four_seen)"
proof -
  let ?c = "example_collaborators all_down"
  let ?s = "initial_state (example_config ''all'' 10) four_seen"
  have h: "\<forall>feed_url\<in>set (select_urls ''all'' None).
      all_down feed_url = ParseFailed \<or> (\<exists>t. all_down feed_url = Parsed [] t)"
    by (simp add: all_down_def)
  then have h': "\<forall>feed_url\<in>set (select_urls (config_source (config ?s)) (customFeedUrl (config ?s))).
             parse ?c feed_url = ParseFailed \<or> (\<exists>t. parse ?c feed_url = Parsed [] t)"
    by (simp add: example_collaborators_def initial_state_def example_config_def)
  have same: "?s\<lparr>articles := [], processed_count := 0\<rparr> = ?s"
    by (simp add: initial_state_def)
  from all_sources_fail[OF h'] have "fetch_rss_feeds all_down example_validator ''all'' None 10 = Inr []"
    and "run_graph ?c ?s = (None, ?s)"
    unfolding same by (simp_all add: example_collaborators_def initial_state_def example_config_def)
  moreover have "list_all (\<lambda>feed_url. all_down feed_url = ParseFailed \<or>
               all_down feed_url = Parsed [] (Some ''Mens Health''))
     (select_urls ''all'' None)"
    by (simp add: list_all_iff all_down_def)
  ultimately show ?thesis by blast
qed

end
